theory Spec2Isabelle
  imports Complex_Main "HOL-Library.Word"
begin

unbundle bit_operations_syntax

section \<open>Bytes, buffers and the DataView accessors\<close>

text \<open>
  An ArrayBuffer is a list of bytes. \<open>DataView.getUint32(off, true)\<close> and
  \<open>DataView.setUint32(off, v, true)\<close> read and write four bytes in little-endian order and
  throw a RangeError when the four bytes do not lie inside the buffer.
\<close>

type_synonym byte = "8 word"
type_synonym uint32 = "32 word"

datatype js_error =
    RangeError
  | TypeError
  | InvalidStateError
  | LibavError string

definition le32 :: "byte \<Rightarrow> byte \<Rightarrow> byte \<Rightarrow> byte \<Rightarrow> uint32" where
  "le32 b0 b1 b2 b3 =
     ucast b0 OR push_bit 8 (ucast b1) OR push_bit 16 (ucast b2) OR push_bit 24 (ucast b3)"

definition bytes_le32 :: "uint32 \<Rightarrow> byte list" where
  "bytes_le32 w = [ucast w, ucast (drop_bit 8 w), ucast (drop_bit 16 w), ucast (drop_bit 24 w)]"

definition ArrayBuffer :: "nat \<Rightarrow> byte list" where
  "ArrayBuffer n = replicate n 0"

definition getUint32 :: "byte list \<Rightarrow> nat \<Rightarrow> js_error + uint32" where
  "getUint32 buf off =
     (if off + 4 \<le> length buf
      then Inr (le32 (buf ! off) (buf ! (off + 1)) (buf ! (off + 2)) (buf ! (off + 3)))
      else Inl RangeError)"

definition setUint32 :: "byte list \<Rightarrow> nat \<Rightarrow> uint32 \<Rightarrow> js_error + byte list" where
  "setUint32 buf off v =
     (if off + 4 \<le> length buf
      then Inr (take off buf @ bytes_le32 v @ drop (off + 4) buf)
      else Inl RangeError)"

section \<open>Numbers\<close>

text \<open>
  A number of the source is a binary64 value: a finite one, one of the two infinities, or
  NaN. A finite value is held as the real number it denotes; the sign of zero is not kept.
\<close>

datatype number = Finite real | PosInfinity | NegInfinity | NaN

text \<open>The integer nearest to \<open>x\<close>; half way between two integers, the even one.\<close>

definition round_even :: "real \<Rightarrow> int" where
  "round_even x = (let f = \<lfloor>x\<rfloor>; r = x - of_int f in
     if r < 1 / 2 then f else if 1 / 2 < r then f + 1 else if even f then f else f + 1)"

text \<open>The number of binary digits of a positive integer.\<close>

function bits :: "int \<Rightarrow> nat" where
  "bits n = (if n \<le> 0 then 0 else Suc (bits (n div 2)))"
  by auto
termination
  by (relation "measure nat") auto

declare bits.simps [simp del]

text \<open>
  The binary exponent of a positive real \<open>y\<close>: the \<open>k\<close> with \<open>2^k \<le> y < 2^(k+1)\<close>, found from
  the digits of the integer part of \<open>y\<close> or of \<open>1 / y\<close>.
\<close>

definition exponent :: "real \<Rightarrow> int" where
  "exponent y =
     (if 1 \<le> y then int (bits \<lfloor>y\<rfloor>) - 1
      else (let j = int (bits \<lfloor>1 / y\<rfloor>) - 1 in if 2 powi (- j) \<le> y then - j else - j - 1))"

text \<open>
  The distance between the binary64 values next to \<open>y\<close>: 53 significant binary digits, and
  the fixed distance \<open>2^-1074\<close> of the subnormal values below \<open>2^-1022\<close>.
\<close>

definition ulp :: "real \<Rightarrow> real" where
  "ulp y = 2 powi (max (exponent y) (- 1022) - 52)"

text \<open>Rounding of a non-negative real to the nearest multiple of that distance, ties to even.\<close>

definition round_pos :: "real \<Rightarrow> real" where
  "round_pos y = ulp y * of_int (round_even (y / ulp y))"

text \<open>
  The number that an arithmetic operation returns when its exact result is \<open>x\<close>: the
  nearest binary64 value, and an infinity when that value is \<open>2^1024\<close> or more in magnitude.
\<close>

definition round64 :: "real \<Rightarrow> number" where
  "round64 x =
     (if x < 0 then (let r = round_pos (- x) in if 1024 \<le> exponent r then NegInfinity else Finite (- r))
      else (let r = round_pos x in if 1024 \<le> exponent r then PosInfinity else Finite r))"

text \<open>\<open>a + b\<close> on numbers.\<close>

fun num_add :: "number \<Rightarrow> number \<Rightarrow> number" where
  "num_add (Finite x) (Finite y) = round64 (x + y)"
| "num_add NaN b = NaN"
| "num_add a NaN = NaN"
| "num_add PosInfinity NegInfinity = NaN"
| "num_add NegInfinity PosInfinity = NaN"
| "num_add PosInfinity b = PosInfinity"
| "num_add a PosInfinity = PosInfinity"
| "num_add NegInfinity b = NegInfinity"
| "num_add a NegInfinity = NegInfinity"

text \<open>
  \<open>a / b\<close> for two numbers that hold integers, as the fields \<open>nb_samples\<close> and
  \<open>sample_rate\<close> of a frame do: they are \<open>int\<close> fields of libav, which a number holds
  exactly, so the quotient is rounded once.
\<close>

definition num_quot :: "int \<Rightarrow> int \<Rightarrow> number" where
  "num_quot a b =
     (if b = 0 then (if 0 < a then PosInfinity else if a < 0 then NegInfinity else NaN)
      else round64 (real_of_int a / real_of_int b))"

section \<open>The progress table\<close>

text \<open>
  \<open>status\<close> holds one entry per track. The field \<open>duration\<close> is \<open>number | boolean\<close> in the
  source: \<open>false\<close> before the first decoded frame, a number of seconds while loading, \<open>true\<close>
  when the decoder reached the end of its input.
\<close>

datatype duration = DFalse | DTrue | DNum number

record status_entry =
  name :: string
  duration :: duration
  ready :: bool

datatype progress = Waiting | NotLoading | Loading duration | Finished

text \<open>One line of \<open>showStatus\<close>: the branch taken for an entry, in the order of the source.\<close>

definition showEntry :: "status_entry \<Rightarrow> progress" where
  "showEntry x =
     (if ready x = False then Waiting
      else if duration x = DFalse then NotLoading
      else if duration x = DTrue then Finished
      else Loading (duration x))"

text \<open>
  \<open>showStatus\<close> renders every entry into the dialog box of the host. What it shows is a
  function of the table, so the calls themselves are not recorded.
\<close>

definition showStatus :: "status_entry list \<Rightarrow> (string \<times> progress) list" where
  "showStatus status = map (\<lambda>x. (name x, showEntry x)) status"

section \<open>The chunk channel: socket handler and pull reader of one track\<close>

datatype msg = Text string | Binary "byte list"

datatype ready_state = CONNECTING | OPEN | CLOSING | CLOSED

datatype log_entry = Acknowledged nat | InvalidFirstMessage nat

text \<open>
  The variables that the closures of \<open>loadTrack\<close> share: \<open>first\<close>, \<open>incoming\<close> and
  \<open>incomingRes\<close> (\<open>waiting\<close> is \<open>incomingRes \<noteq> null\<close>), the socket (\<open>readyState\<close> and the
  frames handed to \<open>sock.send\<close>, oldest first), the controller of \<open>inStream\<close> (the chunks it
  holds, whether it was closed, the error it stored) and the console.
\<close>

record chan =
  first :: bool
  incoming :: "msg list"
  waiting :: bool
  readyState :: ready_state
  sent :: "byte list list"
  chunks :: "byte list list"
  stream_closed :: bool
  stream_error :: "js_error option"
  console :: "log_entry list"

definition ok_marker :: string where
  "ok_marker = [CHR ''{'', CHR 0x22, CHR ''o'', CHR ''k'', CHR 0x22, CHR '':'',
                CHR ''t'', CHR ''r'', CHR ''u'', CHR ''e'', CHR ''}'']"

text \<open>
  \<open>sock.send\<close> throws while the socket is still connecting, transmits when it is open and
  drops the data silently once the socket is closing or closed. \<open>sock.close\<close> starts the
  closing handshake unless the socket is already closed.
\<close>

definition sock_send :: "byte list \<Rightarrow> chan \<Rightarrow> (js_error \<times> chan) + chan" where
  "sock_send d c =
     (case readyState c of
        CONNECTING \<Rightarrow> Inl (InvalidStateError, c)
      | OPEN \<Rightarrow> Inr (c\<lparr>sent := sent c @ [d]\<rparr>)
      | CLOSING \<Rightarrow> Inr c
      | CLOSED \<Rightarrow> Inr c)"

definition sock_close :: "chan \<Rightarrow> chan" where
  "sock_close c = (if readyState c = CLOSED then c else c\<lparr>readyState := CLOSING\<rparr>)"

definition controller_enqueue :: "byte list \<Rightarrow> chan \<Rightarrow> (js_error \<times> chan) + chan" where
  "controller_enqueue x c =
     (if stream_closed c \<or> stream_error c \<noteq> None then Inl (TypeError, c)
      else Inr (c\<lparr>chunks := chunks c @ [x]\<rparr>))"

definition controller_close :: "chan \<Rightarrow> (js_error \<times> chan) + chan" where
  "controller_close c =
     (if stream_closed c \<or> stream_error c \<noteq> None then Inl (TypeError, c)
      else Inr (c\<lparr>stream_closed := True\<rparr>))"

section \<open>Decoded frames, the filter and the state of one track loader\<close>

record frame =
  format :: int
  sample_rate :: int
  channels :: int
  nb_samples :: int

record filter_io =
  io_sample_rate :: int
  io_sample_fmt :: int
  io_channel_layout :: int

text \<open>
  Everything \<open>loadTrack\<close> reads or writes for one track: the shared \<open>status\<close> table, the
  channel, the data handed to the reader device (\<open>None\<close> is the \<open>null\<close> that marks the end
  of the input), the three format fields of the destination track, the frames enqueued on
  \<open>trackStream\<close>, the three filter handles and the arguments of every call of
  \<open>ff_init_filter_graph\<close>.
\<close>

record loader =
  status :: "status_entry list"
  ch :: chan
  dev :: "byte list option list"
  track_format :: int
  track_sampleRate :: int
  track_channels :: int
  appended :: "frame list"
  trackStream_closed :: bool
  filter_graph :: int
  buffersrc_ctx :: int
  buffersink_ctx :: int
  filter_calls :: "(filter_io \<times> filter_io) list"

text \<open>The state in which a thrown call left things, or the state it returned.\<close>

definition after :: "('e \<times> 'a) + 'a \<Rightarrow> 'a" where
  "after r = (case r of Inl ec \<Rightarrow> snd ec | Inr c \<Rightarrow> c)"

text \<open>
  \<open>sock.onmessage\<close> of the track with index \<open>idx\<close> and status slot \<open>sidx\<close>. While
  \<open>first\<close> holds, the message is compared with the success marker and the handler returns
  in both branches; \<open>first\<close> is cleared only when the marker matched. Writing
  \<open>status[sidx].ready\<close> outside the table is a TypeError.
\<close>

definition onmessage :: "nat \<Rightarrow> nat \<Rightarrow> msg \<Rightarrow> loader \<Rightarrow> (js_error \<times> loader) + loader" where
  "onmessage idx sidx ev l =
     (let c = ch l in
      if first c then
        (if ev = Text ok_marker then
           (let l1 = l\<lparr>ch := c\<lparr>console := console c @ [Acknowledged idx], first := False\<rparr>\<rparr> in
            if sidx < length (status l1)
            then Inr (l1\<lparr>status := (status l1)[sidx := (status l1 ! sidx)\<lparr>ready := True\<rparr>]\<rparr>)
            else Inl (TypeError, l1))
         else Inr (l\<lparr>ch := c\<lparr>console := console c @ [InvalidFirstMessage idx]\<rparr>\<rparr>))
      else Inr (l\<lparr>ch := c\<lparr>incoming := incoming c @ [ev]\<rparr>\<rparr>))"

text \<open>
  The body of \<open>inStream.pull\<close> once a part was shifted off \<open>incoming\<close>: build the
  DataView, read the socket state, acknowledge, then enqueue the payload or close.
\<close>

definition wsClosed :: "chan \<Rightarrow> bool" where
  "wsClosed c = (readyState c = CLOSING \<or> readyState c = CLOSED)"

definition send_ack :: "byte list \<Rightarrow> chan \<Rightarrow> (js_error \<times> chan) + chan" where
  "send_ack part c =
     (case getUint32 part 0 of
        Inl e \<Rightarrow> Inl (e, c)
      | Inr seq_no \<Rightarrow>
          (case setUint32 (ArrayBuffer 8) 4 seq_no of
             Inl e \<Rightarrow> Inl (e, c)
           | Inr ack \<Rightarrow> sock_send ack c))"

definition process_part :: "msg \<Rightarrow> chan \<Rightarrow> (js_error \<times> chan) + chan" where
  "process_part m c =
     (case m of
        Text s \<Rightarrow> Inl (TypeError, c)
      | Binary part \<Rightarrow>
          (let was_closed = wsClosed c in
           case (if \<not> was_closed then send_ack part c else Inr c) of
             Inl ec \<Rightarrow> Inl ec
           | Inr c1 \<Rightarrow>
               if length part > 4 then controller_enqueue (drop 4 part) c1
               else
                 (case controller_close c1 of
                    Inl ec \<Rightarrow> Inl ec
                  | Inr c2 \<Rightarrow> Inr (if \<not> was_closed then sock_close c2 else c2))))"

text \<open>
  \<open>inStream.pull\<close>: with a part queued it is processed and the call returns; with none the
  call suspends on a promise that the next accepted message resolves.
\<close>

definition pull :: "chan \<Rightarrow> (js_error \<times> chan) + chan" where
  "pull c =
     (case incoming c of
        [] \<Rightarrow> Inr (c\<lparr>waiting := True\<rparr>)
      | m # ms \<Rightarrow> process_part m (c\<lparr>incoming := ms, waiting := False\<rparr>))"

text \<open>
  What the stream does with a call of \<open>pull\<close>: a rejected call puts the stream into its
  errored state, which also empties its queue.
\<close>

definition run_pull :: "chan \<Rightarrow> chan" where
  "run_pull c =
     (case pull c of
        Inl ec \<Rightarrow> (snd ec)\<lparr>stream_error := Some (fst ec), chunks := []\<rparr>
      | Inr c' \<Rightarrow> c')"

text \<open>The expected acknowledgement of a part: four zero bytes, then its first four bytes.\<close>

definition ack_of :: "byte list \<Rightarrow> byte list" where
  "ack_of part = replicate 4 0 @ take 4 part"

subsection \<open>The channel under events\<close>

text \<open>
  The events that drive the channel of one track: a message arrives on the socket, the
  stream calls \<open>pull\<close> (it does so only while it holds no chunk, is neither closed nor
  errored and has no call pending), the consumer takes the chunk the stream holds, and the
  socket starts closing or is closed from the other side. A message that is accepted while
  a \<open>pull\<close> is suspended resumes that call at once.
\<close>

datatype event = Message msg | StreamPull | Read | SocketClosing | SocketClosed

definition can_pull :: "chan \<Rightarrow> bool" where
  "can_pull c = (chunks c = [] \<and> \<not> stream_closed c \<and> stream_error c = None \<and> \<not> waiting c)"

definition chan_step :: "nat \<Rightarrow> nat \<Rightarrow> event \<Rightarrow> loader \<Rightarrow> loader" where
  "chan_step idx sidx ev l =
     (case ev of
        Message m \<Rightarrow>
          (let l1 = after (onmessage idx sidx m l) in
           if \<not> first (ch l) \<and> waiting (ch l) then l1\<lparr>ch := run_pull (ch l1)\<rparr> else l1)
      | StreamPull \<Rightarrow> (if can_pull (ch l) then l\<lparr>ch := run_pull (ch l)\<rparr> else l)
      | Read \<Rightarrow> l\<lparr>ch := (ch l)\<lparr>chunks := drop 1 (chunks (ch l))\<rparr>\<rparr>
      | SocketClosing \<Rightarrow>
          (if readyState (ch l) = CLOSED then l else l\<lparr>ch := (ch l)\<lparr>readyState := CLOSING\<rparr>\<rparr>)
      | SocketClosed \<Rightarrow> l\<lparr>ch := (ch l)\<lparr>readyState := CLOSED\<rparr>\<rparr>)"

fun chan_run :: "nat \<Rightarrow> nat \<Rightarrow> event list \<Rightarrow> loader \<Rightarrow> loader" where
  "chan_run idx sidx [] l = l"
| "chan_run idx sidx (ev # evs) l = chan_run idx sidx evs (chan_step idx sidx ev l)"

text \<open>
  The parts that the calls of \<open>pull\<close> shift off \<open>incoming\<close> during a run, each with the
  socket state read when it was processed.
\<close>

definition step_processed :: "event \<Rightarrow> loader \<Rightarrow> (msg \<times> ready_state) list" where
  "step_processed ev l =
     (case ev of
        Message m \<Rightarrow>
          (if \<not> first (ch l) \<and> waiting (ch l)
           then (case incoming (ch l) @ [m] of p # ps \<Rightarrow> [(p, readyState (ch l))] | [] \<Rightarrow> [])
           else [])
      | StreamPull \<Rightarrow>
          (if can_pull (ch l)
           then (case incoming (ch l) of p # ps \<Rightarrow> [(p, readyState (ch l))] | [] \<Rightarrow> [])
           else [])
      | Read \<Rightarrow> []
      | SocketClosing \<Rightarrow> []
      | SocketClosed \<Rightarrow> [])"

fun processed :: "nat \<Rightarrow> nat \<Rightarrow> event list \<Rightarrow> loader \<Rightarrow> (msg \<times> ready_state) list" where
  "processed idx sidx [] l = []"
| "processed idx sidx (ev # evs) l =
     step_processed ev l @ processed idx sidx evs (chan_step idx sidx ev l)"

text \<open>The messages that the handler pushed to \<open>incoming\<close> during a run.\<close>

definition step_accepted :: "event \<Rightarrow> loader \<Rightarrow> msg list" where
  "step_accepted ev l =
     (case ev of
        Message m \<Rightarrow> (if first (ch l) then [] else [m])
      | StreamPull \<Rightarrow> []
      | Read \<Rightarrow> []
      | SocketClosing \<Rightarrow> []
      | SocketClosed \<Rightarrow> [])"

fun accepted :: "nat \<Rightarrow> nat \<Rightarrow> event list \<Rightarrow> loader \<Rightarrow> msg list" where
  "accepted idx sidx [] l = []"
| "accepted idx sidx (ev # evs) l =
     step_accepted ev l @ accepted idx sidx evs (chan_step idx sidx ev l)"

text \<open>
  A chunk frame carries at least the four bytes of its sequence number. The frames of a
  run that were processed while the socket was neither closing nor closed:
\<close>

fun open_frames :: "(msg \<times> ready_state) list \<Rightarrow> byte list list" where
  "open_frames [] = []"
| "open_frames ((Binary part, rs) # xs) =
     (if 4 \<le> length part \<and> rs \<noteq> CLOSING \<and> rs \<noteq> CLOSED then part # open_frames xs
      else open_frames xs)"
| "open_frames ((Text s, rs) # xs) = open_frames xs"

text \<open>The handler alone, over a sequence of messages.\<close>

fun deliver :: "nat \<Rightarrow> nat \<Rightarrow> msg list \<Rightarrow> loader \<Rightarrow> loader" where
  "deliver idx sidx [] l = l"
| "deliver idx sidx (m # ms) l = deliver idx sidx ms (after (onmessage idx sidx m l))"

section \<open>Reading the channel: \<open>inRdr.read\<close> and the first megabyte\<close>

text \<open>
  One \<open>inRdr.read()\<close>, with the messages of the track already placed in \<open>incoming\<close>. An
  errored stream rejects, a held chunk is handed out, a closed stream reports \<open>done\<close>;
  otherwise the stream calls \<open>pull\<close>. \<open>Blocked\<close> is a read that stays pending because no
  part is queued: it settles only if another message is accepted.
\<close>

datatype read_result = Value "byte list" | Done | Failed js_error | Blocked

definition inRdr_read :: "chan \<Rightarrow> read_result \<times> chan" where
  "inRdr_read c =
     (case stream_error c of
        Some e \<Rightarrow> (Failed e, c)
      | None \<Rightarrow>
          (case chunks c of
             v # vs \<Rightarrow> (Value v, c\<lparr>chunks := vs\<rparr>)
           | [] \<Rightarrow>
               if stream_closed c then (Done, c)
               else
                 (case incoming c of
                    [] \<Rightarrow> (Blocked, c\<lparr>waiting := True\<rparr>)
                  | m # ms \<Rightarrow>
                      (let c' = run_pull c in
                       case stream_error c' of
                         Some e \<Rightarrow> (Failed e, c')
                       | None \<Rightarrow>
                           (case chunks c' of
                              v # vs \<Rightarrow> (Value v, c'\<lparr>chunks := vs\<rparr>)
                            | [] \<Rightarrow> if stream_closed c' then (Done, c') else (Blocked, c'))))))"

datatype 'a flow = Continue 'a | Break 'a | Threw js_error 'a | Suspended 'a

text \<open>Each chunk that a read hands out leaves less to read.\<close>

lemma inRdr_read_Value_less:
  assumes "inRdr_read c = (Value v, c')"
  shows "length (chunks c') + length (incoming c') < length (chunks c) + length (incoming c)"
  using assms
  by (auto simp add: inRdr_read_def run_pull_def pull_def process_part_def send_ack_def
      sock_send_def sock_close_def controller_enqueue_def controller_close_def Let_def
      split: option.splits list.splits if_splits sum.splits msg.splits ready_state.splits)

text \<open>
  The loop that hands the first \<open>1024 * 1024\<close> bytes to the reader device. It ends by
  its condition (\<open>Continue\<close>) or by the \<open>break\<close> after the end marker (\<open>Break\<close>).
\<close>

function prime :: "int \<Rightarrow> loader \<Rightarrow> loader flow" where
  "prime remaining l =
     (if remaining > 0 then
        (case inRdr_read (ch l) of
           (Blocked, c) \<Rightarrow> Suspended (l\<lparr>ch := c\<rparr>)
         | (Failed e, c) \<Rightarrow> Threw e (l\<lparr>ch := c\<rparr>)
         | (Done, c) \<Rightarrow> Break (l\<lparr>ch := c, dev := dev l @ [None]\<rparr>)
         | (Value v, c) \<Rightarrow>
             prime (remaining - int (length v)) (l\<lparr>ch := c, dev := dev l @ [Some v]\<rparr>))
      else Continue l)"
  by pat_completeness auto
termination
  by (relation "measure (\<lambda>(r, l). length (chunks (ch l)) + length (incoming (ch l)))")
    (auto dest: inRdr_read_Value_less [OF sym])

section \<open>The decode stage: one turn of the loop in \<open>trackStream.pull\<close>\<close>

text \<open>
  The answers of libav.js to the calls of one turn of the loop, in the order of the calls:
  whether \<open>ff_read_multi\<close> reported the end of the file, the packets it returned for the
  audio stream (\<open>None\<close> when it returned none), the frames of \<open>ff_decode_multi\<close>, the
  handles of \<open>ff_init_filter_graph\<close> and the frames of \<open>ff_filter_multi\<close>. The last three
  can throw. A handle is an address in the memory of libav.js, a natural number; the
  variables that receive the handles hold -1 until then.
\<close>

record read_step =
  rs_eof :: bool
  rs_packets :: "byte list list option"
  rs_frames :: "js_error + frame list"
  rs_filter_init :: "js_error + (nat \<times> nat \<times> nat)"
  rs_fframes :: "js_error + frame list"

text \<open>\<open>1 << n\<close> on numbers that hold integers: the count is taken modulo 32, the result is a signed 32-bit value.\<close>

definition shl1 :: "int \<Rightarrow> int" where
  "shl1 n = sint (push_bit (nat (n mod 32)) (1 :: 32 word))"

text \<open>
  \<open>duration += nb_samples / sampleRate\<close>: the quotient is rounded to a number, and so is
  the sum. A boolean operand of the sum counts as 0 or 1.
\<close>

definition to_number :: "duration \<Rightarrow> number" where
  "to_number d = (case d of DFalse \<Rightarrow> Finite 0 | DTrue \<Rightarrow> Finite 1 | DNum n \<Rightarrow> n)"

definition add_seconds :: "duration \<Rightarrow> int \<Rightarrow> int \<Rightarrow> duration" where
  "add_seconds d nb rate = DNum (num_add (to_number d) (num_quot nb rate))"

text \<open>
  \<open>status[sidx].duration = d\<close>. The filter block checks that the slot exists before its
  first access, where the source would throw a TypeError.
\<close>

definition set_duration :: "nat \<Rightarrow> duration \<Rightarrow> loader \<Rightarrow> loader" where
  "set_duration sidx d l = l\<lparr>status := (status l)[sidx := (status l ! sidx)\<lparr>duration := d\<rparr>]\<rparr>"

text \<open>\<open>if (status[sidx].duration === false) status[sidx].duration = 0\<close>.\<close>

definition start_loading :: "nat \<Rightarrow> loader \<Rightarrow> loader" where
  "start_loading sidx l =
     (if duration (status l ! sidx) = DFalse then set_duration sidx (DNum (Finite 0)) l else l)"

text \<open>\<open>if (eof) status[sidx].duration = true\<close>.\<close>

definition finish_loading :: "nat \<Rightarrow> bool \<Rightarrow> loader \<Rightarrow> loader" where
  "finish_loading sidx eof l = (if eof then set_duration sidx DTrue l else l)"

text \<open>The \<open>for\<close> loop that enqueues the filtered frames and adds their seconds.\<close>

fun send_along :: "nat \<Rightarrow> frame list \<Rightarrow> loader \<Rightarrow> loader" where
  "send_along sidx [] l = l"
| "send_along sidx (f # fs) l =
     send_along sidx fs
       (set_duration sidx
          (add_seconds (duration (status l ! sidx)) (nb_samples f) (track_sampleRate l))
          (l\<lparr>appended := appended l @ [f]\<rparr>))"

text \<open>
  The block that prepares the filter. \<open>fromPlanar\<close> is a function of the host and is taken
  as a parameter.
\<close>

definition prepare_filter ::
  "(int \<Rightarrow> int) \<Rightarrow> frame \<Rightarrow> js_error + (nat \<times> nat \<times> nat) \<Rightarrow> loader \<Rightarrow> (js_error \<times> loader) + loader"
where
  "prepare_filter fromPlanar f0 init l =
     (let toFormat = fromPlanar (format f0);
          l1 = l\<lparr>track_format := toFormat, track_sampleRate := sample_rate f0,
                 track_channels := channels f0\<rparr>;
          channelLayout = (if track_channels l1 = 1 then 4 else shl1 (track_channels l1) - 1);
          src = \<lparr>io_sample_rate = track_sampleRate l1, io_sample_fmt = format f0,
                 io_channel_layout = channelLayout\<rparr>;
          dst = \<lparr>io_sample_rate = track_sampleRate l1, io_sample_fmt = toFormat,
                 io_channel_layout = channelLayout\<rparr>;
          l2 = l1\<lparr>filter_calls := filter_calls l1 @ [(src, dst)]\<rparr>
      in case init of
           Inl e \<Rightarrow> Inl (e, l2)
         | Inr h \<Rightarrow>
             Inr (l2\<lparr>filter_graph := int (fst h), buffersrc_ctx := int (fst (snd h)),
                     buffersink_ctx := int (snd (snd h))\<rparr>))"

text \<open>\<open>if (frames.length && buffersrc_ctx < 0)\<close> around that block.\<close>

definition prepare_turn ::
  "(int \<Rightarrow> int) \<Rightarrow> frame list \<Rightarrow> js_error + (nat \<times> nat \<times> nat) \<Rightarrow> loader \<Rightarrow> (js_error \<times> loader) + loader"
where
  "prepare_turn fromPlanar frames init l =
     (case frames of
        f0 # fs \<Rightarrow> if buffersrc_ctx l < 0 then prepare_filter fromPlanar f0 init l else Inr l
      | [] \<Rightarrow> Inr l)"

text \<open>
  The block under \<open>buffersrc_ctx >= 0\<close>: filter, update the status entry, enqueue. The
  result says whether the \<open>break\<close> inside the block was taken.
\<close>

definition filter_block ::
  "nat \<Rightarrow> bool \<Rightarrow> js_error + frame list \<Rightarrow> loader \<Rightarrow> (js_error \<times> loader) + (bool \<times> loader)"
where
  "filter_block sidx eof answer l =
     (case answer of
        Inl e \<Rightarrow> Inl (e, l)
      | Inr fframes \<Rightarrow>
          if \<not> sidx < length (status l) then Inl (TypeError, l)
          else
            (let l1 = start_loading sidx l;
                 l2 = send_along sidx fframes l1;
                 l3 = finish_loading sidx eof l2
             in Inr (fframes \<noteq> [] \<and> \<not> eof, l3)))"

text \<open>
  One turn of the \<open>while (true)\<close> of \<open>trackStream.pull\<close>. \<open>Continue\<close> goes round the loop
  again, \<open>Break\<close> returns from \<open>pull\<close>.
\<close>

definition pull_turn :: "(int \<Rightarrow> int) \<Rightarrow> nat \<Rightarrow> read_step \<Rightarrow> loader \<Rightarrow> loader flow" where
  "pull_turn fromPlanar sidx r l =
     (let eof = rs_eof r in
      if rs_packets r = None \<and> \<not> eof then
        (case inRdr_read (ch l) of
           (Blocked, c) \<Rightarrow> Suspended (l\<lparr>ch := c\<rparr>)
         | (Failed e, c) \<Rightarrow> Threw e (l\<lparr>ch := c\<rparr>)
         | (Done, c) \<Rightarrow> Continue (l\<lparr>ch := c, dev := dev l @ [None]\<rparr>)
         | (Value v, c) \<Rightarrow> Continue (l\<lparr>ch := c, dev := dev l @ [Some v]\<rparr>))
      else
        (case rs_frames r of
           Inl e \<Rightarrow> Threw e l
         | Inr frames \<Rightarrow>
             (case prepare_turn fromPlanar frames (rs_filter_init r) l of
                Inl el \<Rightarrow> Threw (fst el) (snd el)
              | Inr l1 \<Rightarrow>
                  (case (if buffersrc_ctx l1 \<ge> 0 then filter_block sidx eof (rs_fframes r) l1
                         else Inr (False, l1)) of
                     Inl el \<Rightarrow> Threw (fst el) (snd el)
                   | Inr bl \<Rightarrow>
                       if fst bl then Break (snd bl)
                       else if eof then Break ((snd bl)\<lparr>trackStream_closed := True\<rparr>)
                       else Continue (snd bl)))))"

section \<open>The track loader\<close>

datatype 'a outcome = Fulfilled 'a | Rejected js_error 'a | Pending 'a

text \<open>
  \<open>track.append\<close> drains \<open>trackStream\<close>: it asks for the next frame until the stream is
  closed, so a \<open>pull\<close> that returned without closing is followed by the next call. The
  answers of libav.js are consumed one record per turn; when they run out the call of
  libav.js never answers.
\<close>

fun track_append :: "(int \<Rightarrow> int) \<Rightarrow> nat \<Rightarrow> read_step list \<Rightarrow> loader \<Rightarrow> loader outcome" where
  "track_append fromPlanar sidx [] l = Pending l"
| "track_append fromPlanar sidx (r # rs) l =
     (case pull_turn fromPlanar sidx r l of
        Continue l' \<Rightarrow> track_append fromPlanar sidx rs l'
      | Break l' \<Rightarrow>
          if trackStream_closed l' then Fulfilled l' else track_append fromPlanar sidx rs l'
      | Threw e l' \<Rightarrow> Rejected e l'
      | Suspended l' \<Rightarrow> Pending l')"

record libav =
  init_demuxer :: "js_error option"
  init_decoder :: "js_error option"
  answers :: "read_step list"

text \<open>
  \<open>loadTrack\<close> for the messages \<open>msgs\<close> that the server sends on the socket of the track:
  the handler accepts them, the first megabyte is handed to the reader device, demuxer and
  decoder are initialised (either can throw), and the decoded frames are appended to the
  track. The order in which messages arrive and reads happen does not change the data that
  is read, so the messages are accepted first. The calls that release the demuxer, the
  decoder, the filter graph and the device file after the append change nothing that is
  modelled here.
\<close>

definition decode_track :: "(int \<Rightarrow> int) \<Rightarrow> libav \<Rightarrow> nat \<Rightarrow> loader \<Rightarrow> loader outcome" where
  "decode_track fromPlanar av sidx l =
     (case init_demuxer av of
        Some e \<Rightarrow> Rejected e l
      | None \<Rightarrow>
          (case init_decoder av of
             Some e \<Rightarrow> Rejected e l
           | None \<Rightarrow> track_append fromPlanar sidx (answers av) l))"

definition loadTrack ::
  "(int \<Rightarrow> int) \<Rightarrow> libav \<Rightarrow> nat \<Rightarrow> nat \<Rightarrow> msg list \<Rightarrow> loader \<Rightarrow> loader outcome"
where
  "loadTrack fromPlanar av idx sidx msgs l =
     (case prime (1024 * 1024) (deliver idx sidx msgs l) of
        Suspended l1 \<Rightarrow> Pending l1
      | Threw e l1 \<Rightarrow> Rejected e l1
      | Break l1 \<Rightarrow> decode_track fromPlanar av sidx l1
      | Continue l1 \<Rightarrow> decode_track fromPlanar av sidx l1)"

definition new_chan :: chan where
  "new_chan = \<lparr>first = True, incoming = [], waiting = False, readyState = OPEN, sent = [],
                chunks = [], stream_closed = False, stream_error = None, console = []\<rparr>"

definition new_loader :: "status_entry list \<Rightarrow> loader" where
  "new_loader st = \<lparr>status = st, ch = new_chan, dev = [], track_format = 0,
                    track_sampleRate = 0, track_channels = 0, appended = [],
                    trackStream_closed = False, filter_graph = - 1, buffersrc_ctx = - 1,
                    buffersink_ctx = - 1, filter_calls = []\<rparr>"

section \<open>The load scheduler\<close>

text \<open>
  How the promise of a loader settles, if it ever does. The scheduler sees a loader only
  through this.
\<close>

datatype settle = Fulfils | Rejects js_error | Never

definition settle_of :: "'a outcome \<Rightarrow> settle" where
  "settle_of r = (case r of Fulfilled l \<Rightarrow> Fulfils | Rejected e l \<Rightarrow> Rejects e | Pending l \<Rightarrow> Never)"

text \<open>
  \<open>tracks\<close> is the queue of track indices not yet started, \<open>promises\<close> the array of the
  same name (each loader named by the index of its track), \<open>started\<close> the calls of
  \<open>loadTrack\<close> made so far.
\<close>

record sched =
  tracks :: "nat list"
  promises :: "nat list"
  started :: "nat list"

datatype run_result = Returned sched | Thrown js_error sched | Unsettled sched

definition state_of :: "run_result \<Rightarrow> sched" where
  "state_of r = (case r of Returned s \<Rightarrow> s | Thrown e s \<Rightarrow> s | Unsettled s \<Rightarrow> s)"

text \<open>\<open>Math.min(navigator.hardwareConcurrency || 1, 8)\<close>; the property may be undefined.\<close>

definition threads :: "nat option \<Rightarrow> nat" where
  "threads hc = min (case hc of None \<Rightarrow> 1 | Some n \<Rightarrow> if n = 0 then 1 else n) 8"

text \<open>The inner loop: start queued tracks while fewer than \<open>threads\<close> promises are held.\<close>

function enqueue_tracks :: "nat \<Rightarrow> sched \<Rightarrow> sched" where
  "enqueue_tracks thr s =
     (case tracks s of
        [] \<Rightarrow> s
      | t # ts \<Rightarrow>
          if length (promises s) < thr
          then enqueue_tracks thr
                 (s\<lparr>tracks := ts, promises := promises s @ [t], started := started s @ [t]\<rparr>)
          else s)"
  by pat_completeness auto
termination
  by (relation "measure (\<lambda>(thr, s). length (tracks s))") auto

definition splice1 :: "nat \<Rightarrow> 'a list \<Rightarrow> 'a list" where
  "splice1 i xs = take i xs @ drop (Suc i) xs"

text \<open>
  \<open>Promise.all\<close> over the loaders still held when the queue is empty. \<open>picks\<close> is the order
  in which loaders settle: each entry is the position, among the loaders not yet settled,
  of the one that settles next. When no further loader settles the call stays pending.
\<close>

fun wait_all :: "(nat \<Rightarrow> settle) \<Rightarrow> nat list \<Rightarrow> nat list \<Rightarrow> sched \<Rightarrow> run_result" where
  "wait_all oc picks [] s = Returned s"
| "wait_all oc [] (p # ps) s = Unsettled s"
| "wait_all oc (i # rest) (p # ps) s =
     (if i < length (p # ps) then
        (case oc ((p # ps) ! i) of
           Fulfils \<Rightarrow> wait_all oc rest (splice1 i (p # ps)) s
         | Rejects e \<Rightarrow> Thrown e s
         | Never \<Rightarrow> Unsettled s)
      else Unsettled s)"

text \<open>
  The outer loop. \<open>Promise.race\<close> over \<open>x.then(() => idx)\<close> fulfils with the position of
  the loader that fulfilled first and rejects when a loader rejected first; the rejection
  leaves \<open>loadData\<close> through the \<open>await\<close>.
\<close>

fun run_all :: "nat \<Rightarrow> (nat \<Rightarrow> settle) \<Rightarrow> nat list \<Rightarrow> sched \<Rightarrow> run_result" where
  "run_all thr oc [] s =
     (if tracks s = [] then wait_all oc [] (promises s) s
      else Unsettled (enqueue_tracks thr s))"
| "run_all thr oc (i # rest) s =
     (if tracks s = [] then wait_all oc (i # rest) (promises s) s
      else
        (let s1 = enqueue_tracks thr s in
         if i < length (promises s1) then
           (case oc (promises s1 ! i) of
              Fulfils \<Rightarrow> run_all thr oc rest (s1\<lparr>promises := splice1 i (promises s1)\<rparr>)
            | Rejects e \<Rightarrow> Thrown e s1
            | Never \<Rightarrow> Unsettled s1)
         else Unsettled s1))"

text \<open>
  \<open>loadData\<close> from the point where the tracks exist: one track per user, numbered from 1.
\<close>

definition loadData :: "nat option \<Rightarrow> (nat \<Rightarrow> settle) \<Rightarrow> nat list \<Rightarrow> nat \<Rightarrow> run_result" where
  "loadData hc oc picks n =
     run_all (threads hc) oc picks \<lparr>tracks = [1 ..< Suc n], promises = [], started = []\<rparr>"

section \<open>Notions used to state the properties\<close>

text \<open>The state a flow or an outcome carries.\<close>

definition flow_state :: "'a flow \<Rightarrow> 'a" where
  "flow_state r = (case r of Continue l \<Rightarrow> l | Break l \<Rightarrow> l | Threw e l \<Rightarrow> l | Suspended l \<Rightarrow> l)"

definition outcome_state :: "'a outcome \<Rightarrow> 'a" where
  "outcome_state r = (case r of Fulfilled l \<Rightarrow> l | Rejected e l \<Rightarrow> l | Pending l \<Rightarrow> l)"





text \<open>The entry of a track after the first \<open>k\<close> frames of the \<open>for\<close> loop of a filter block.\<close>

definition duration_at :: "nat \<Rightarrow> frame list \<Rightarrow> loader \<Rightarrow> nat \<Rightarrow> duration" where
  "duration_at sidx fs l k = duration (status (send_along sidx (take k fs) (start_loading sidx l)) ! sidx)"

text \<open>The format fields of the destination track.\<close>

definition fmt_params :: "loader \<Rightarrow> int \<times> int \<times> int" where
  "fmt_params l = (track_sampleRate l, track_format l, track_channels l)"

text \<open>What the conversion stage of a track is built from, and the handle that guards the block.\<close>

definition conversion :: "loader \<Rightarrow> (int \<times> int \<times> int) \<times> (filter_io \<times> filter_io) list \<times> int" where
  "conversion l = (fmt_params l, filter_calls l, buffersrc_ctx l)"

text \<open>
  The first frame of the first non-empty decode result among the answers of libav.js:
  turns that only read more input call no decoder.
\<close>

fun first_decoded :: "read_step list \<Rightarrow> frame option" where
  "first_decoded [] = None"
| "first_decoded (r # rs) =
     (if rs_packets r = None \<and> \<not> rs_eof r then first_decoded rs
      else
        (case rs_frames r of
           Inr (f0 # fs) \<Rightarrow> Some f0
         | Inr [] \<Rightarrow> first_decoded rs
         | Inl e \<Rightarrow> first_decoded rs))"

text \<open>The number of answers of libav.js that \<open>track.append\<close> goes through before it stops.\<close>

fun turns :: "(int \<Rightarrow> int) \<Rightarrow> nat \<Rightarrow> read_step list \<Rightarrow> loader \<Rightarrow> nat" where
  "turns fromPlanar sidx [] l = 0"
| "turns fromPlanar sidx (r # rs) l =
     (case pull_turn fromPlanar sidx r l of
        Continue l' \<Rightarrow> Suc (turns fromPlanar sidx rs l')
      | Break l' \<Rightarrow> if trackStream_closed l' then 1 else Suc (turns fromPlanar sidx rs l')
      | Threw e l' \<Rightarrow> 1
      | Suspended l' \<Rightarrow> 1)"


section \<open>Example inputs\<close>

text \<open>A run of the channel: handshake, one frame processed on the open socket, one after the socket began closing.\<close>

definition demo_events :: "event list" where
  "demo_events =
     [Message (Text ok_marker), Message (Binary [1, 0, 0, 0, 9]), StreamPull, SocketClosing,
      Message (Binary [2, 0, 0, 0, 9]), Read, StreamPull]"

text \<open>
  A run in which the message after the handshake is too short to hold a sequence number,
  and two chunk frames follow it.
\<close>

definition stalled_events :: "event list" where
  "stalled_events =
     [Message (Text ok_marker), Message (Binary [1, 0]), StreamPull,
      Message (Binary [1, 0, 0, 0, 9]), Message (Binary [2, 0, 0, 0, 9]), StreamPull, Read,
      StreamPull]"

text \<open>
  Three tracks. The server acknowledges tracks 1 and 3 and sends each one audio frame and
  the terminal frame; on the socket of track 2 the first message is not the marker.
\<close>

definition three_tracks :: "status_entry list" where
  "three_tracks =
     [\<lparr>name = ''1-ann'', duration = DFalse, ready = False\<rparr>,
      \<lparr>name = ''2-bob'', duration = DFalse, ready = False\<rparr>,
      \<lparr>name = ''3-cy'', duration = DFalse, ready = False\<rparr>]"

definition good_msgs :: "msg list" where
  "good_msgs = [Text ok_marker, Binary [1, 0, 0, 0, 79, 103], Binary [2, 0, 0, 0]]"

definition bad_msgs :: "msg list" where
  "bad_msgs = [Text ''{}'', Binary [1, 0, 0, 0, 79, 103], Binary [2, 0, 0, 0]]"

definition msgs_of :: "nat \<Rightarrow> msg list" where
  "msgs_of t = (if t = 2 then bad_msgs else good_msgs)"

definition a_frame :: frame where
  "a_frame = \<lparr>format = 8, sample_rate = 48000, channels = 1, nb_samples = 960\<rparr>"

text \<open>libav.js decodes one frame from the data, then reports the end of the file.\<close>

definition one_frame_av :: libav where
  "one_frame_av =
     \<lparr>init_demuxer = None, init_decoder = None,
      answers =
        [\<lparr>rs_eof = False, rs_packets = Some [ [79, 103]], rs_frames = Inr [a_frame],
          rs_filter_init = Inr (1, 2, 3), rs_fframes = Inr [a_frame]\<rparr>,
         \<lparr>rs_eof = True, rs_packets = None, rs_frames = Inr [],
          rs_filter_init = Inr (1, 2, 3), rs_fframes = Inr []\<rparr>]\<rparr>"

text \<open>A stand-in for the host's \<open>fromPlanar\<close>: the planar formats 5 to 9 map to 0 to 4.\<close>

definition packed :: "int \<Rightarrow> int" where
  "packed fmt = (if 5 \<le> fmt \<and> fmt \<le> 9 then fmt - 5 else fmt)"

definition settles :: "nat \<Rightarrow> settle" where
  "settles t =
     settle_of (loadTrack packed one_frame_av t (t - 1) (msgs_of t) (new_loader three_tracks))"

text \<open>The loader of track 1 fails, every other loader succeeds.\<close>

definition first_fails :: "nat \<Rightarrow> settle" where
  "first_fails t = (if t = 1 then Rejects (LibavError ''Could not open source file'') else Fulfils)"

definition all_fulfil :: "nat \<Rightarrow> settle" where
  "all_fulfil t = Fulfils"



text \<open>A frame of one sample at ten samples a second, and a loader of such a track.\<close>

definition tenth_frame :: frame where
  "tenth_frame = \<lparr>format = 8, sample_rate = 10, channels = 1, nb_samples = 1\<rparr>"

definition tenth_loader :: loader where
  "tenth_loader = (new_loader three_tracks)\<lparr>track_sampleRate := 10, buffersrc_ctx := 2\<rparr>"

text \<open>
  A track without audio: after the handshake the very first chunk frame is the terminal
  one. libav.js opens the empty input, reports the end of the file at once and decodes
  nothing.
\<close>

definition empty_msgs :: "msg list" where
  "empty_msgs = [Text ok_marker, Binary [1, 0, 0, 0]]"

definition eof_av :: libav where
  "eof_av =
     \<lparr>init_demuxer = None, init_decoder = None,
      answers =
        [\<lparr>rs_eof = True, rs_packets = None, rs_frames = Inr [],
          rs_filter_init = Inr (1, 2, 3), rs_fframes = Inr []\<rparr>]\<rparr>"

definition empty_primed :: loader where
  "empty_primed = flow_state (prime (1024 * 1024) (deliver 1 0 empty_msgs (new_loader three_tracks)))"

section \<open>Acknowledgement frames\<close>

lemma ucast_le32_0: "(ucast (le32 b0 b1 b2 b3) :: byte) = b0"
  unfolding le32_def
  by (rule bit_word_eqI) (auto simp add: bit_simps dest: bit_imp_le_length)

lemma ucast_le32_1: "(ucast (drop_bit 8 (le32 b0 b1 b2 b3)) :: byte) = b1"
  unfolding le32_def
  by (rule bit_word_eqI) (auto simp add: bit_simps dest: bit_imp_le_length)

lemma ucast_le32_2: "(ucast (drop_bit 16 (le32 b0 b1 b2 b3)) :: byte) = b2"
  unfolding le32_def
  by (rule bit_word_eqI) (auto simp add: bit_simps dest: bit_imp_le_length)

lemma ucast_le32_3: "(ucast (drop_bit 24 (le32 b0 b1 b2 b3)) :: byte) = b3"
  unfolding le32_def
  by (rule bit_word_eqI) (auto simp add: bit_simps dest: bit_imp_le_length)

lemma bytes_le32_le32: "bytes_le32 (le32 b0 b1 b2 b3) = [b0, b1, b2, b3]"
  by (simp add: bytes_le32_def ucast_le32_0 ucast_le32_1 ucast_le32_2 ucast_le32_3)

lemma take4_nth:
  assumes "4 \<le> length xs"
  shows "take 4 xs = [xs ! 0, xs ! 1, xs ! 2, xs ! 3]"
proof -
  obtain a b c d ys where "xs = a # b # c # d # ys"
    using assms by (cases xs rule: list.exhaust; simp; metis Suc_le_length_iff numeral_3_eq_3)
  then show ?thesis by simp
qed

lemma getUint32_0:
  "4 \<le> length part \<Longrightarrow>
   getUint32 part 0 = Inr (le32 (part ! 0) (part ! 1) (part ! 2) (part ! 3))"
  by (simp add: getUint32_def numeral_2_eq_2)

lemma getUint32_short: "length part < 4 \<Longrightarrow> getUint32 part 0 = Inl RangeError"
  by (simp add: getUint32_def)

lemma setUint32_ack: "setUint32 (ArrayBuffer 8) 4 v = Inr (replicate 4 0 @ bytes_le32 v)"
  by (simp add: setUint32_def ArrayBuffer_def)

lemma send_ack_long: "4 \<le> length part \<Longrightarrow> send_ack part c = sock_send (ack_of part) c"
  by (simp add: send_ack_def getUint32_0 setUint32_ack bytes_le32_le32 take4_nth ack_of_def)

lemma send_ack_short: "length part < 4 \<Longrightarrow> send_ack part c = Inl (RangeError, c)"
  by (simp add: send_ack_def getUint32_short)

lemma getUint32_ack_of: "4 \<le> length part \<Longrightarrow> getUint32 (ack_of part) 4 = getUint32 part 0"
  by (simp add: getUint32_def ack_of_def nth_append take4_nth numeral_2_eq_2)

lemma ack_of_bytes:
  assumes "4 \<le> length part" and "getUint32 part 0 = Inr seq_no"
  shows "drop 4 (ack_of part) = bytes_le32 seq_no"
  using assms by (auto simp add: ack_of_def getUint32_0 bytes_le32_le32 take4_nth)

lemma sent_after_process_part:
  "sent (after (process_part m c)) =
     (case m of
        Text s \<Rightarrow> sent c
      | Binary part \<Rightarrow>
          if readyState c = OPEN \<and> 4 \<le> length part then sent c @ [ack_of part] else sent c)"
proof (cases m)
  case (Text s)
  then show ?thesis by (simp add: process_part_def after_def)
next
  case (Binary part)
  show ?thesis
  proof (cases "4 \<le> length part")
    case True
    then show ?thesis using Binary
      by (cases "readyState c")
        (auto simp add: process_part_def after_def wsClosed_def send_ack_long sock_send_def
          controller_enqueue_def controller_close_def sock_close_def Let_def
          split: sum.splits if_splits)
  next
    case False
    then have "length part < 4" by simp
    then show ?thesis using Binary
      by (cases "readyState c")
        (auto simp add: process_part_def after_def wsClosed_def send_ack_short sock_send_def
          controller_enqueue_def controller_close_def sock_close_def Let_def
          split: sum.splits if_splits)
  qed
qed

lemma sent_after_pull:
  "sent (after (pull c)) =
     (case incoming c of
        Binary part # ms \<Rightarrow>
          if readyState c = OPEN \<and> 4 \<le> length part then sent c @ [ack_of part] else sent c
      | _ \<Rightarrow> sent c)"
proof (cases "incoming c")
  case Nil
  then show ?thesis by (simp add: pull_def after_def)
next
  case (Cons m ms)
  then have "pull c = process_part m (c\<lparr>incoming := ms, waiting := False\<rparr>)"
    by (simp add: pull_def)
  then show ?thesis using Cons
    by (simp add: sent_after_process_part split: msg.splits)
qed

text \<open>
  C7. Whenever a call of \<open>inStream.pull\<close> hands a frame to \<open>sock.send\<close>, that frame is the
  acknowledgement of the part at the head of \<open>incoming\<close>: it has exactly 8 bytes, bytes 0 to
  3 are zero, and bytes 4 to 7 are the little-endian encoding of the sequence number that
  \<open>getUint32(0, true)\<close> reads from the first four bytes of the part.
\<close>

theorem ack_frame_layout:
  assumes "sent (after (pull c)) \<noteq> sent c"
  shows "\<exists>part ms ack seq_no.
           incoming c = Binary part # ms \<and>
           sent (after (pull c)) = sent c @ [ack] \<and>
           length ack = 8 \<and>
           take 4 ack = [0, 0, 0, 0] \<and>
           getUint32 part 0 = Inr seq_no \<and>
           getUint32 ack 4 = Inr seq_no \<and>
           drop 4 ack = bytes_le32 seq_no"
proof -
  from assms obtain part ms where inc: "incoming c = Binary part # ms"
    and len: "4 \<le> length part" and snt: "sent (after (pull c)) = sent c @ [ack_of part]"
    by (auto simp add: sent_after_pull split: list.splits msg.splits if_splits)
  obtain seq_no where rd: "getUint32 part 0 = Inr seq_no"
    using len by (simp add: getUint32_0)
  have "length (ack_of part) = 8" using len by (simp add: ack_of_def)
  moreover have "take 4 (ack_of part) = [0, 0, 0, 0]"
    by (simp add: ack_of_def numeral_eq_Suc)
  moreover have "getUint32 (ack_of part) 4 = Inr seq_no"
    using len rd by (simp add: getUint32_ack_of)
  moreover have "drop 4 (ack_of part) = bytes_le32 seq_no"
    using len rd by (rule ack_of_bytes)
  ultimately show ?thesis using inc snt rd by blast
qed

theorem ack_frame_layout_witness:
  "sent (after (pull (new_chan\<lparr>incoming := [Binary [1, 2, 3, 4, 5]]\<rparr>)))
     \<noteq> sent (new_chan\<lparr>incoming := [Binary [1, 2, 3, 4, 5]]\<rparr>) \<and>
   (\<exists>part ms ack seq_no.
      incoming (new_chan\<lparr>incoming := [Binary [1, 2, 3, 4, 5]]\<rparr>) = Binary part # ms \<and>
      sent (after (pull (new_chan\<lparr>incoming := [Binary [1, 2, 3, 4, 5]]\<rparr>)))
        = sent (new_chan\<lparr>incoming := [Binary [1, 2, 3, 4, 5]]\<rparr>) @ [ack] \<and>
      length ack = 8 \<and>
      take 4 ack = [0, 0, 0, 0] \<and>
      getUint32 part 0 = Inr seq_no \<and>
      getUint32 ack 4 = Inr seq_no \<and>
      drop 4 ack = bytes_le32 seq_no)"
proof -
  have h: "sent (after (pull (new_chan\<lparr>incoming := [Binary [1, 2, 3, 4, 5]]\<rparr>)))
     \<noteq> sent (new_chan\<lparr>incoming := [Binary [1, 2, 3, 4, 5]]\<rparr>)"
    by (simp add: sent_after_pull new_chan_def)
  from ack_frame_layout [OF h] h show ?thesis by blast
qed

section \<open>The pull reader, frame by frame\<close>

lemma sent_run_pull: "sent (run_pull c) = sent (after (pull c))"
  by (simp add: run_pull_def after_def split: sum.splits)

lemma readyState_after_process_part:
  "readyState c \<noteq> CONNECTING \<Longrightarrow> readyState (after (process_part m c)) \<noteq> CONNECTING"
  by (cases m; cases "readyState c")
    (auto simp add: process_part_def after_def wsClosed_def send_ack_def sock_send_def
      controller_enqueue_def controller_close_def sock_close_def Let_def
      split: sum.splits if_splits)

lemma readyState_run_pull_after: "readyState (run_pull c) = readyState (after (pull c))"
  by (simp add: run_pull_def after_def split: sum.splits)

lemma readyState_run_pull:
  assumes nc: "readyState c \<noteq> CONNECTING"
  shows "readyState (run_pull c) \<noteq> CONNECTING"
proof (cases "incoming c")
  case Nil
  then show ?thesis using nc by (simp add: run_pull_def pull_def)
next
  case (Cons m ms)
  have "readyState (after (process_part m (c\<lparr>incoming := ms, waiting := False\<rparr>))) \<noteq> CONNECTING"
    using nc by (intro readyState_after_process_part) simp
  then show ?thesis using Cons
    by (simp add: readyState_run_pull_after pull_def)
qed

lemma ch_after_onmessage_readyState:
  "readyState (ch (after (onmessage idx sidx m l))) = readyState (ch l)"
  by (simp add: onmessage_def after_def Let_def)

lemma sent_ch_after_onmessage: "sent (ch (after (onmessage idx sidx m l))) = sent (ch l)"
  by (simp add: onmessage_def after_def Let_def)

lemma incoming_after_onmessage_accept:
  "\<not> first (ch l) \<Longrightarrow> incoming (ch (after (onmessage idx sidx m l))) = incoming (ch l) @ [m]"
  by (simp add: onmessage_def after_def Let_def)

lemma readyState_chan_step:
  "readyState (ch l) \<noteq> CONNECTING \<Longrightarrow> readyState (ch (chan_step idx sidx ev l)) \<noteq> CONNECTING"
  by (cases ev)
    (auto simp add: chan_step_def Let_def ch_after_onmessage_readyState
      intro!: readyState_run_pull)

lemma open_frames_single:
  "open_frames [(m, rs)] =
     (case m of
        Text s \<Rightarrow> []
      | Binary part \<Rightarrow> if 4 \<le> length part \<and> rs \<noteq> CLOSING \<and> rs \<noteq> CLOSED then [part] else [])"
  by (cases m) simp_all

lemma open_frames_append: "open_frames (xs @ ys) = open_frames xs @ open_frames ys"
  by (induction xs rule: open_frames.induct) simp_all

lemma sent_run_pull_head:
  assumes "readyState c \<noteq> CONNECTING" and "incoming c = p # ps"
  shows "sent (run_pull c) = sent c @ map ack_of (open_frames [(p, readyState c)])"
  using assms
  by (cases p; cases "readyState c")
    (simp_all add: sent_run_pull sent_after_pull open_frames_single)

lemma sent_run_pull_empty: "incoming c = [] \<Longrightarrow> sent (run_pull c) = sent c"
  by (simp add: sent_run_pull sent_after_pull)

lemma sent_chan_step:
  assumes "readyState (ch l) \<noteq> CONNECTING"
  shows "sent (ch (chan_step idx sidx ev l)) =
           sent (ch l) @ map ack_of (open_frames (step_processed ev l))"
proof (cases ev)
  case (Message m)
  show ?thesis
  proof (cases "\<not> first (ch l) \<and> waiting (ch l)")
    case True
    let ?l1 = "after (onmessage idx sidx m l)"
    obtain p ps where inc: "incoming (ch l) @ [m] = p # ps"
      by (cases "incoming (ch l) @ [m]") simp_all
    have "incoming (ch ?l1) = p # ps"
      using True inc by (simp add: incoming_after_onmessage_accept)
    moreover have "readyState (ch ?l1) \<noteq> CONNECTING"
      using assms by (simp add: ch_after_onmessage_readyState)
    ultimately have "sent (run_pull (ch ?l1)) =
        sent (ch ?l1) @ map ack_of (open_frames [(p, readyState (ch ?l1))])"
      by (intro sent_run_pull_head)
    then show ?thesis using True Message inc
      by (simp add: chan_step_def step_processed_def Let_def sent_ch_after_onmessage
          ch_after_onmessage_readyState)
  next
    case False
    then show ?thesis using Message
      by (auto simp add: chan_step_def step_processed_def Let_def sent_ch_after_onmessage)
  qed
next
  case StreamPull
  show ?thesis
  proof (cases "incoming (ch l)")
    case Nil
    then show ?thesis using StreamPull
      by (simp add: chan_step_def step_processed_def sent_run_pull_empty)
  next
    case (Cons p ps)
    then show ?thesis using StreamPull assms
      by (simp add: chan_step_def step_processed_def sent_run_pull_head)
  qed
next
  case Read
  then show ?thesis by (simp add: chan_step_def step_processed_def)
next
  case SocketClosing
  then show ?thesis by (simp add: chan_step_def step_processed_def)
next
  case SocketClosed
  then show ?thesis by (simp add: chan_step_def step_processed_def)
qed

lemma sent_chan_run:
  "readyState (ch l) \<noteq> CONNECTING \<Longrightarrow>
   sent (ch (chan_run idx sidx evs l)) =
     sent (ch l) @ map ack_of (open_frames (processed idx sidx evs l))"
proof (induction evs arbitrary: l)
  case Nil
  then show ?case by simp
next
  case (Cons ev evs)
  have "readyState (ch (chan_step idx sidx ev l)) \<noteq> CONNECTING"
    using Cons.prems by (rule readyState_chan_step)
  then show ?case
    using Cons.IH [of "chan_step idx sidx ev l"] Cons.prems
    by (simp add: sent_chan_step open_frames_append)
qed

lemma open_frames_long: "part \<in> set (open_frames xs) \<Longrightarrow> 4 \<le> length part"
  by (induction xs rule: open_frames.induct) (auto split: if_splits)

lemma sent_after_pull_long:
  assumes "incoming c = Binary part # ms" and "4 < length part" and "readyState c \<noteq> CONNECTING"
  shows "sent (after (pull c)) = (if wsClosed c then sent c else sent c @ [ack_of part])"
  using assms by (cases "readyState c") (simp_all add: sent_after_pull wsClosed_def)

lemma incoming_after_process_part: "incoming (after (process_part m c)) = incoming c"
  by (cases m; cases "readyState c")
    (auto simp add: process_part_def after_def wsClosed_def send_ack_def sock_send_def
      controller_enqueue_def controller_close_def sock_close_def Let_def
      split: sum.splits if_splits)

lemma incoming_run_pull: "incoming (run_pull c) = drop 1 (incoming c)"
proof (cases "incoming c")
  case Nil
  then show ?thesis by (simp add: run_pull_def pull_def)
next
  case (Cons m ms)
  have "incoming (after (process_part m (c\<lparr>incoming := ms, waiting := False\<rparr>))) = ms"
    by (simp add: incoming_after_process_part)
  then show ?thesis using Cons
    by (auto simp add: run_pull_def pull_def after_def split: sum.splits)
qed

lemma incoming_after_onmessage:
  "incoming (ch (after (onmessage idx sidx m l))) =
     incoming (ch l) @ (if first (ch l) then [] else [m])"
  by (simp add: onmessage_def after_def Let_def)

lemma incoming_chan_step:
  "map fst (step_processed ev l) @ incoming (ch (chan_step idx sidx ev l)) =
     incoming (ch l) @ step_accepted ev l"
proof (cases ev)
  case (Message m)
  show ?thesis
  proof (cases "\<not> first (ch l) \<and> waiting (ch l)")
    case True
    obtain p ps where inc: "incoming (ch l) @ [m] = p # ps"
      by (cases "incoming (ch l) @ [m]") simp_all
    then show ?thesis using True Message
      by (simp add: chan_step_def step_processed_def step_accepted_def Let_def
          incoming_run_pull incoming_after_onmessage)
  next
    case False
    then show ?thesis using Message
      by (auto simp add: chan_step_def step_processed_def step_accepted_def Let_def
          incoming_after_onmessage)
  qed
next
  case StreamPull
  then show ?thesis
    by (cases "incoming (ch l)")
      (simp_all add: chan_step_def step_processed_def step_accepted_def incoming_run_pull)
next
  case Read
  then show ?thesis by (simp add: chan_step_def step_processed_def step_accepted_def)
next
  case SocketClosing
  then show ?thesis by (simp add: chan_step_def step_processed_def step_accepted_def)
next
  case SocketClosed
  then show ?thesis by (simp add: chan_step_def step_processed_def step_accepted_def)
qed

lemma incoming_chan_run:
  "map fst (processed idx sidx evs l) @ incoming (ch (chan_run idx sidx evs l)) =
     incoming (ch l) @ accepted idx sidx evs l"
proof (induction evs arbitrary: l)
  case Nil
  then show ?case by simp
next
  case (Cons ev evs)
  have "map fst (processed idx sidx (ev # evs) l) @
          incoming (ch (chan_run idx sidx (ev # evs) l)) =
        map fst (step_processed ev l) @
          (map fst (processed idx sidx evs (chan_step idx sidx ev l)) @
           incoming (ch (chan_run idx sidx evs (chan_step idx sidx ev l))))"
    by simp
  also have "\<dots> = map fst (step_processed ev l) @
      (incoming (ch (chan_step idx sidx ev l)) @ accepted idx sidx evs (chan_step idx sidx ev l))"
    by (simp only: Cons.IH)
  also have "\<dots> = (incoming (ch l) @ step_accepted ev l) @
      accepted idx sidx evs (chan_step idx sidx ev l)"
    using incoming_chan_step [of ev l idx sidx] by simp
  finally show ?case by simp
qed

lemma stopped_chan_step:
  assumes "\<not> waiting (ch l)" and "stream_closed (ch l) \<or> stream_error (ch l) \<noteq> None"
  shows "\<not> waiting (ch (chan_step idx sidx ev l)) \<and>
         (stream_closed (ch (chan_step idx sidx ev l)) \<or>
          stream_error (ch (chan_step idx sidx ev l)) \<noteq> None) \<and>
         step_processed ev l = [] \<and>
         sent (ch (chan_step idx sidx ev l)) = sent (ch l)"
  using assms
  by (cases ev)
    (auto simp add: chan_step_def step_processed_def can_pull_def onmessage_def after_def
      Let_def)

lemma stopped_chan_run:
  assumes "\<not> waiting (ch l)" and "stream_closed (ch l) \<or> stream_error (ch l) \<noteq> None"
  shows "processed idx sidx evs l = [] \<and>
         sent (ch (chan_run idx sidx evs l)) = sent (ch l)"
  using assms
proof (induction evs arbitrary: l)
  case Nil
  then show ?case by simp
next
  case (Cons ev evs)
  note s = stopped_chan_step [OF Cons.prems, of idx sidx ev]
  from s have "\<not> waiting (ch (chan_step idx sidx ev l))"
    and "stream_closed (ch (chan_step idx sidx ev l)) \<or>
         stream_error (ch (chan_step idx sidx ev l)) \<noteq> None"
    by blast+
  from Cons.IH [OF this] s show ?case by simp
qed

text \<open>
  C6, as amended. In every run of the channel of a track that starts with a socket that is
  not still connecting, every message the handler accepted is processed by \<open>pull\<close> once,
  in the order of arrival, or still waits in the queue; and the frames handed to
  \<open>sock.send\<close> are, in order, exactly the acknowledgements of the chunk frames that \<open>pull\<close>
  processed while the socket was neither closing nor closed: one acknowledgement per such
  frame, none for a frame processed after the socket began closing, so these two counts
  agree; each acknowledgement carries the sequence number of its frame. A chunk frame
  with an empty payload (the terminal frame) counts as a chunk frame and is acknowledged.
  For a single non-terminal frame at the head of the queue, \<open>pull\<close> sends its
  acknowledgement if and only if the socket is not closing or closed. Once the stream has
  closed or failed and no call of \<open>pull\<close> is pending, no further frame is processed and
  nothing more is sent: the frames accepted from then on are never acknowledged.
\<close>

theorem acknowledgements_match_frames:
  assumes "readyState (ch l) \<noteq> CONNECTING"
  shows "map fst (processed idx sidx evs l) @ incoming (ch (chan_run idx sidx evs l)) =
           incoming (ch l) @ accepted idx sidx evs l \<and>
         sent (ch (chan_run idx sidx evs l)) =
           sent (ch l) @ map ack_of (open_frames (processed idx sidx evs l)) \<and>
         length (sent (ch (chan_run idx sidx evs l))) =
           length (sent (ch l)) + length (open_frames (processed idx sidx evs l)) \<and>
         (\<forall>part \<in> set (open_frames (processed idx sidx evs l)).
            getUint32 (ack_of part) 4 = getUint32 part 0) \<and>
         (\<forall>part ms. incoming (ch l) = Binary part # ms \<and> 4 < length part \<longrightarrow>
            sent (after (pull (ch l))) =
              (if wsClosed (ch l) then sent (ch l) else sent (ch l) @ [ack_of part])) \<and>
         (\<not> waiting (ch l) \<and> (stream_closed (ch l) \<or> stream_error (ch l) \<noteq> None) \<longrightarrow>
            processed idx sidx evs l = [] \<and>
            sent (ch (chan_run idx sidx evs l)) = sent (ch l) \<and>
            incoming (ch (chan_run idx sidx evs l)) = incoming (ch l) @ accepted idx sidx evs l)"
proof -
  have a: "sent (ch (chan_run idx sidx evs l)) =
           sent (ch l) @ map ack_of (open_frames (processed idx sidx evs l))"
    using assms by (rule sent_chan_run)
  have b: "length (sent (ch (chan_run idx sidx evs l))) =
           length (sent (ch l)) + length (open_frames (processed idx sidx evs l))"
    by (simp add: a)
  have c: "\<forall>part \<in> set (open_frames (processed idx sidx evs l)).
            getUint32 (ack_of part) 4 = getUint32 part 0"
    by (auto dest: open_frames_long simp add: getUint32_ack_of)
  have d: "\<forall>part ms. incoming (ch l) = Binary part # ms \<and> 4 < length part \<longrightarrow>
            sent (after (pull (ch l))) =
              (if wsClosed (ch l) then sent (ch l) else sent (ch l) @ [ack_of part])"
    using assms by (auto simp add: sent_after_pull_long)
  note i = incoming_chan_run [of idx sidx evs l]
  have e: "\<not> waiting (ch l) \<and> (stream_closed (ch l) \<or> stream_error (ch l) \<noteq> None) \<longrightarrow>
            processed idx sidx evs l = [] \<and>
            sent (ch (chan_run idx sidx evs l)) = sent (ch l) \<and>
            incoming (ch (chan_run idx sidx evs l)) = incoming (ch l) @ accepted idx sidx evs l"
  proof
    assume "\<not> waiting (ch l) \<and> (stream_closed (ch l) \<or> stream_error (ch l) \<noteq> None)"
    then have "processed idx sidx evs l = [] \<and>
         sent (ch (chan_run idx sidx evs l)) = sent (ch l)"
      by (intro stopped_chan_run) simp_all
    then show "processed idx sidx evs l = [] \<and>
            sent (ch (chan_run idx sidx evs l)) = sent (ch l) \<and>
            incoming (ch (chan_run idx sidx evs l)) = incoming (ch l) @ accepted idx sidx evs l"
      using i by simp
  qed
  from a b c d e i show ?thesis by blast
qed

lemma demo_processed:
  "processed 1 0 demo_events (new_loader []) =
     [(Binary [1, 0, 0, 0, 9], OPEN), (Binary [2, 0, 0, 0, 9], CLOSING)]"
  by (simp add: demo_events_def new_loader_def new_chan_def step_processed_def chan_step_def
      can_pull_def onmessage_def after_def Let_def run_pull_def pull_def process_part_def
      wsClosed_def send_ack_long sock_send_def controller_enqueue_def)

theorem acknowledgements_match_frames_witness:
  "readyState (ch (new_loader [])) \<noteq> CONNECTING \<and>
   sent (ch (chan_run 1 0 demo_events (new_loader []))) = [ [0, 0, 0, 0, 1, 0, 0, 0]] \<and>
   length (sent (ch (chan_run 1 0 demo_events (new_loader [])))) = 1"
proof -
  have h: "readyState (ch (new_loader [])) \<noteq> CONNECTING"
    by (simp add: new_loader_def new_chan_def)
  have s: "sent (ch (new_loader [])) = []"
    by (simp add: new_loader_def new_chan_def)
  have "sent (ch (chan_run 1 0 demo_events (new_loader []))) =
          sent (ch (new_loader [])) @
          map ack_of (open_frames (processed 1 0 demo_events (new_loader [])))"
    using acknowledgements_match_frames [OF h, of 1 0 demo_events] by blast
  also have "\<dots> = [ [0, 0, 0, 0, 1, 0, 0, 0]]"
    unfolding demo_processed s by (simp add: ack_of_def numeral_eq_Suc)
  finally show ?thesis using h by simp
qed

text \<open>
  After the handshake a message of two bytes arrives: \<open>pull\<close> fails on it with a RangeError
  and the stream is in its errored state. The two chunk frames that the handler accepts
  afterwards stay in the queue: the socket is open all along, and no acknowledgement is
  ever sent.
\<close>

theorem acknowledgements_match_frames_counterexample:
  "accepted 1 0 stalled_events (new_loader three_tracks) =
     [Binary [1, 0], Binary [1, 0, 0, 0, 9], Binary [2, 0, 0, 0, 9]] \<and>
   stream_error (ch (chan_run 1 0 stalled_events (new_loader three_tracks))) = Some RangeError \<and>
   readyState (ch (chan_run 1 0 stalled_events (new_loader three_tracks))) = OPEN \<and>
   incoming (ch (chan_run 1 0 stalled_events (new_loader three_tracks))) =
     [Binary [1, 0, 0, 0, 9], Binary [2, 0, 0, 0, 9]] \<and>
   sent (ch (chan_run 1 0 stalled_events (new_loader three_tracks))) = []"
  by code_simp

section \<open>Frames of at most four bytes\<close>

lemma process_part_short:
  assumes "length part \<le> 4" and "\<not> stream_closed c" and "stream_error c = None"
  shows "process_part (Binary part) c =
     (if wsClosed c then Inr (c\<lparr>stream_closed := True\<rparr>)
      else if length part < 4 then Inl (RangeError, c)
      else if readyState c = CONNECTING then Inl (InvalidStateError, c)
      else Inr (c\<lparr>sent := sent c @ [ack_of part], stream_closed := True,
                  readyState := CLOSING\<rparr>))"
proof (cases "length part < 4")
  case True
  then show ?thesis using assms
    by (cases "readyState c")
      (simp_all add: process_part_def wsClosed_def send_ack_short controller_close_def)
next
  case False
  then have "4 \<le> length part" by simp
  then show ?thesis using assms
    by (cases "readyState c")
      (simp_all add: process_part_def wsClosed_def send_ack_long sock_send_def
        controller_close_def sock_close_def)
qed

text \<open>
  C10, as amended. Let the part at the head of \<open>incoming\<close> have at most 4 bytes when
  \<open>pull\<close> runs. If the socket is closing or closed, the stream is closed and nothing is
  read, sent or thrown, whatever the length. Otherwise the acknowledgement is built first,
  by the unguarded read of 4 bytes at offset 0: a part shorter than 4 bytes makes \<open>pull\<close>
  fail with a RangeError before anything is sent or closed; a part of exactly 4 bytes on
  an open socket is acknowledged, then the stream is closed and the socket starts closing.
\<close>

theorem short_frame_behaviour:
  assumes "incoming c = Binary part # ms" and "length part \<le> 4"
    and "\<not> stream_closed c" and "stream_error c = None"
  shows "pull c =
     (if wsClosed c then Inr (c\<lparr>incoming := ms, waiting := False, stream_closed := True\<rparr>)
      else if length part < 4 then Inl (RangeError, c\<lparr>incoming := ms, waiting := False\<rparr>)
      else if readyState c = CONNECTING
        then Inl (InvalidStateError, c\<lparr>incoming := ms, waiting := False\<rparr>)
      else Inr (c\<lparr>incoming := ms, waiting := False, sent := sent c @ [ack_of part],
                  stream_closed := True, readyState := CLOSING\<rparr>))"
  using assms by (simp add: pull_def process_part_short wsClosed_def)

theorem short_frame_behaviour_witness:
  "pull (new_chan\<lparr>incoming := [Binary [7, 0, 0, 0]]\<rparr>) =
     Inr (new_chan\<lparr>sent := [ [0, 0, 0, 0, 7, 0, 0, 0]], stream_closed := True,
                    readyState := CLOSING\<rparr>) \<and>
   pull (new_chan\<lparr>incoming := [Binary [7, 0]]\<rparr>) = Inl (RangeError, new_chan) \<and>
   pull (new_chan\<lparr>incoming := [Binary [7, 0]], readyState := CLOSING\<rparr>) =
     Inr (new_chan\<lparr>readyState := CLOSING, stream_closed := True\<rparr>)"
  using short_frame_behaviour [of "new_chan\<lparr>incoming := [Binary [7, 0, 0, 0]]\<rparr>" "[7, 0, 0, 0]" "[]"]
    short_frame_behaviour [of "new_chan\<lparr>incoming := [Binary [7, 0]]\<rparr>" "[7, 0]" "[]"]
    short_frame_behaviour [of "new_chan\<lparr>incoming := [Binary [7, 0]], readyState := CLOSING\<rparr>" "[7, 0]" "[]"]
  by (simp add: new_chan_def wsClosed_def ack_of_def numeral_eq_Suc)

text \<open>
  The claim as stated fails twice. On a closed socket a part of 3 bytes does not make
  \<open>pull\<close> fail: the stream is closed cleanly. On an open socket a part of 3 bytes is not
  treated as the terminal frame: \<open>pull\<close> throws and neither the stream nor the socket is
  closed.
\<close>

theorem short_frame_counterexample:
  "pull (new_chan\<lparr>incoming := [Binary [1, 2, 3]], readyState := CLOSED\<rparr>) =
     Inr (new_chan\<lparr>readyState := CLOSED, stream_closed := True\<rparr>) \<and>
   pull (new_chan\<lparr>incoming := [Binary [1, 2, 3]]\<rparr>) = Inl (RangeError, new_chan)"
  by (simp add: new_chan_def pull_def process_part_def wsClosed_def send_ack_def
      getUint32_def controller_close_def)

section \<open>The handshake\<close>

lemma onmessage_invalid_first:
  assumes "first (ch l)" and "m \<noteq> Text ok_marker"
  shows "onmessage idx sidx m l =
           Inr (l\<lparr>ch := (ch l)\<lparr>console := console (ch l) @ [InvalidFirstMessage idx]\<rparr>\<rparr>)"
  using assms by (simp add: onmessage_def Let_def)

lemma onmessage_accept:
  assumes "\<not> first (ch l)"
  shows "onmessage idx sidx m l = Inr (l\<lparr>ch := (ch l)\<lparr>incoming := incoming (ch l) @ [m]\<rparr>\<rparr>)"
  using assms by (simp add: onmessage_def Let_def)

lemma first_after_marker: "first (ch l) \<Longrightarrow> \<not> first (ch (after (onmessage idx sidx (Text ok_marker) l)))"
  by (simp add: onmessage_def after_def Let_def)

lemma incoming_after_marker:
  "first (ch l) \<Longrightarrow> incoming (ch (after (onmessage idx sidx (Text ok_marker) l))) = incoming (ch l)"
  by (simp add: onmessage_def after_def Let_def)

lemma incoming_deliver_accepting:
  "\<not> first (ch l) \<Longrightarrow> incoming (ch (deliver idx sidx msgs l)) = incoming (ch l) @ msgs"
  by (induction msgs arbitrary: l) (simp_all add: onmessage_accept after_def)

lemma incoming_deliver_first:
  "first (ch l) \<Longrightarrow>
   incoming (ch (deliver idx sidx msgs l)) =
     incoming (ch l) @ drop 1 (dropWhile (\<lambda>x. x \<noteq> Text ok_marker) msgs)"
proof (induction msgs arbitrary: l)
  case Nil
  then show ?case by simp
next
  case (Cons m msgs)
  show ?case
  proof (cases "m = Text ok_marker")
    case True
    then show ?thesis using Cons.prems
      by (simp add: incoming_deliver_accepting first_after_marker incoming_after_marker)
  next
    case False
    then show ?thesis using Cons
      by (simp add: onmessage_invalid_first after_def)
  qed
qed

text \<open>
  C5, as amended. After a first message that is not the marker, only a warning is logged
  and \<open>first\<close> stays set, so each later message is compared with the marker again: it is
  dropped with a warning unless it equals the marker, and the messages pushed to the chunk
  queue are exactly those that arrive after a message equal to the marker.
\<close>

theorem messages_after_invalid_first:
  assumes "first (ch l)" and "m \<noteq> Text ok_marker"
  shows "first (ch (after (onmessage idx sidx m l))) \<and>
         console (ch (after (onmessage idx sidx m l))) =
           console (ch l) @ [InvalidFirstMessage idx] \<and>
         incoming (ch (deliver idx sidx (m # msgs) l)) =
           incoming (ch l) @ drop 1 (dropWhile (\<lambda>x. x \<noteq> Text ok_marker) msgs)"
  using assms incoming_deliver_first [of l idx sidx "m # msgs"]
  by (simp add: onmessage_invalid_first after_def)

theorem messages_after_invalid_first_witness:
  "first (ch (new_loader three_tracks)) \<and> Text ''{}'' \<noteq> Text ok_marker \<and>
   incoming (ch (deliver 2 1
       [Text ''{}'', Binary [1, 0, 0, 0, 79], Text ok_marker, Binary [2, 0, 0, 0, 103]]
       (new_loader three_tracks))) = [Binary [2, 0, 0, 0, 103]]"
proof -
  have h1: "first (ch (new_loader three_tracks))"
    by (simp add: new_loader_def new_chan_def)
  have h2: "Text ''{}'' \<noteq> Text ok_marker"
    by (simp add: ok_marker_def)
  have e: "incoming (ch (new_loader three_tracks)) = []"
    by (simp add: new_loader_def new_chan_def)
  from messages_after_invalid_first [OF h1 h2, of 2 1
      "[Binary [1, 0, 0, 0, 79], Text ok_marker, Binary [2, 0, 0, 0, 103]]"]
  show ?thesis using h1 h2 by (simp add: e)
qed

text \<open>
  The claim as stated fails: the frame that follows a first message other than the marker
  is not pushed to the chunk queue.
\<close>

theorem messages_after_invalid_first_counterexample:
  "incoming (ch (deliver 2 1 [Text ''{}'', Binary [1, 0, 0, 0, 79, 103]]
     (new_loader three_tracks))) = []"
  by (simp add: onmessage_def after_def Let_def new_loader_def new_chan_def ok_marker_def)

text \<open>
  C4, as amended. If the first inbound message on the channel of a track is not the
  success marker, the handler returns normally after logging a warning: no error is
  raised and nothing marks the track as failed. The whole progress table is left as it
  was, so the track keeps its entry (it stays Waiting) and the entries of the other tracks
  are untouched; nothing is queued and the next message is again treated as the first.
\<close>

theorem invalid_handshake_only_logged:
  assumes "first (ch l)" and "m \<noteq> Text ok_marker"
  shows "onmessage idx sidx m l =
           Inr (l\<lparr>ch := (ch l)\<lparr>console := console (ch l) @ [InvalidFirstMessage idx]\<rparr>\<rparr>) \<and>
         status (after (onmessage idx sidx m l)) = status l \<and>
         showStatus (status (after (onmessage idx sidx m l))) = showStatus (status l) \<and>
         incoming (ch (after (onmessage idx sidx m l))) = incoming (ch l) \<and>
         first (ch (after (onmessage idx sidx m l)))"
  using assms by (simp add: onmessage_invalid_first after_def)

theorem invalid_handshake_only_logged_witness:
  "first (ch (new_loader three_tracks)) \<and> Text ''{}'' \<noteq> Text ok_marker \<and>
   onmessage 2 1 (Text ''{}'') (new_loader three_tracks) =
     Inr ((new_loader three_tracks)\<lparr>ch := new_chan\<lparr>console := [InvalidFirstMessage 2]\<rparr>\<rparr>) \<and>
   map snd (showStatus (status (after (onmessage 2 1 (Text ''{}'') (new_loader three_tracks)))))
     = [Waiting, Waiting, Waiting]"
proof -
  have h1: "first (ch (new_loader three_tracks))"
    by (simp add: new_loader_def new_chan_def)
  have h2: "Text ''{}'' \<noteq> Text ok_marker"
    by (simp add: ok_marker_def)
  have s: "map snd (showStatus (status (new_loader three_tracks))) = [Waiting, Waiting, Waiting]"
    by (simp add: new_loader_def three_tracks_def showStatus_def showEntry_def)
  have c: "(ch (new_loader three_tracks))
             \<lparr>console := console (ch (new_loader three_tracks)) @ [InvalidFirstMessage 2]\<rparr>
           = new_chan\<lparr>console := [InvalidFirstMessage 2]\<rparr>"
    by (simp add: new_loader_def new_chan_def)
  note t = invalid_handshake_only_logged [OF h1 h2, of 2 1]
  from t have a: "onmessage 2 1 (Text ''{}'') (new_loader three_tracks) =
     Inr ((new_loader three_tracks)\<lparr>ch := new_chan\<lparr>console := [InvalidFirstMessage 2]\<rparr>\<rparr>)"
    unfolding c by (rule conjunct1)
  from t have "showStatus (status (after (onmessage 2 1 (Text ''{}'') (new_loader three_tracks))))
      = showStatus (status (new_loader three_tracks))"
    by blast
  then have b: "map snd (showStatus (status (after (onmessage 2 1 (Text ''{}'')
      (new_loader three_tracks))))) = [Waiting, Waiting, Waiting]"
    using s by (simp only:)
  from h1 h2 a b show ?thesis by blast
qed

text \<open>
  The claim as stated fails. With the first message of track 2 of 3 not the marker, the
  loader of track 2 is never rejected: it waits for data for ever and its entry still
  shows Waiting. With a worker bound of 1 the scheduler then never starts track 3, which
  therefore does not reach Finished.
\<close>

theorem invalid_handshake_counterexample:
  "settles 2 = Never \<and>
   map snd (showStatus (status (outcome_state
     (loadTrack packed one_frame_av 2 1 bad_msgs (new_loader three_tracks)))))
     = [Waiting, Waiting, Waiting] \<and>
   loadData (Some 1) settles [0, 0, 0] 3 =
     Unsettled \<lparr>tracks = [3], promises = [2], started = [1, 2]\<rparr>"
  by code_simp

section \<open>Properties of the load scheduler\<close>

declare enqueue_tracks.simps [simp del]

lemma enqueue_tracks_Nil: "tracks s = [] \<Longrightarrow> enqueue_tracks thr s = s"
  by (subst enqueue_tracks.simps) simp

lemma enqueue_tracks_full: "thr \<le> length (promises s) \<Longrightarrow> enqueue_tracks thr s = s"
  by (subst enqueue_tracks.simps) (simp split: list.splits)

lemma enqueue_tracks_Cons:
  "tracks s = t # ts \<Longrightarrow> length (promises s) < thr \<Longrightarrow>
   enqueue_tracks thr s =
     enqueue_tracks thr (s\<lparr>tracks := ts, promises := promises s @ [t], started := started s @ [t]\<rparr>)"
  by (subst enqueue_tracks.simps) simp

lemma promises_enqueue_tracks:
  "length (promises s) \<le> thr \<Longrightarrow> length (promises (enqueue_tracks thr s)) \<le> thr"
proof (induction thr s rule: enqueue_tracks.induct)
  case (1 thr s)
  show ?case
  proof (cases "tracks s")
    case Nil
    then show ?thesis using "1.prems" by (simp add: enqueue_tracks_Nil)
  next
    case (Cons t ts)
    show ?thesis
    proof (cases "length (promises s) < thr")
      case True
      then show ?thesis using Cons "1.IH" [OF Cons True]
        by (simp add: enqueue_tracks_Cons)
    next
      case False
      then show ?thesis using "1.prems" by (simp add: enqueue_tracks_full)
    qed
  qed
qed

lemma pending_enqueue_tracks:
  "tracks (enqueue_tracks thr s) \<noteq> [] \<Longrightarrow> thr \<le> length (promises (enqueue_tracks thr s))"
proof (induction thr s rule: enqueue_tracks.induct)
  case (1 thr s)
  show ?case
  proof (cases "tracks s")
    case Nil
    then show ?thesis using "1.prems" by (simp add: enqueue_tracks_Nil)
  next
    case (Cons t ts)
    show ?thesis
    proof (cases "length (promises s) < thr")
      case True
      then show ?thesis using Cons "1.IH" [OF Cons True] "1.prems"
        by (simp add: enqueue_tracks_Cons)
    next
      case False
      then show ?thesis by (simp add: enqueue_tracks_full)
    qed
  qed
qed

lemma started_enqueue_tracks:
  "started (enqueue_tracks thr s) @ tracks (enqueue_tracks thr s) = started s @ tracks s"
proof (induction thr s rule: enqueue_tracks.induct)
  case (1 thr s)
  show ?case
  proof (cases "tracks s")
    case Nil
    then show ?thesis by (simp add: enqueue_tracks_Nil)
  next
    case (Cons t ts)
    show ?thesis
    proof (cases "length (promises s) < thr")
      case True
      then show ?thesis using Cons "1.IH" [OF Cons True]
        by (simp add: enqueue_tracks_Cons)
    next
      case False
      then show ?thesis by (simp add: enqueue_tracks_full)
    qed
  qed
qed



lemma length_splice1: "i < length xs \<Longrightarrow> length (splice1 i xs) = length xs - 1"
  by (simp add: splice1_def)


lemma state_of_wait_all: "state_of (wait_all oc picks held s) = s"
  by (induction oc picks held s rule: wait_all.induct)
    (auto simp add: state_of_def split: settle.splits)



lemma run_all_bound:
  "length (promises s) \<le> thr \<Longrightarrow> length (promises (state_of (run_all thr oc picks s))) \<le> thr"
proof (induction picks arbitrary: s)
  case Nil
  show ?case
  proof (cases "tracks s = []")
    case True
    then show ?thesis using Nil by (simp add: state_of_wait_all)
  next
    case False
    then show ?thesis using Nil by (simp add: promises_enqueue_tracks state_of_def)
  qed
next
  case (Cons i rest)
  show ?case
  proof (cases "tracks s = []")
    case True
    then show ?thesis using Cons.prems by (simp add: state_of_wait_all)
  next
    case False
    let ?s1 = "enqueue_tracks thr s"
    have b: "length (promises ?s1) \<le> thr"
      using Cons.prems by (rule promises_enqueue_tracks)
    show ?thesis
    proof (cases "i < length (promises ?s1)")
      case outside: False
      then show ?thesis using False b by (simp add: state_of_def)
    next
      case True
      show ?thesis
      proof (cases "oc (promises ?s1 ! i)")
        case Fulfils
        have "length (promises (?s1\<lparr>promises := splice1 i (promises ?s1)\<rparr>)) \<le> thr"
          using b True by (simp add: length_splice1)
        from Cons.IH [OF this] show ?thesis
          using False True Fulfils by (simp add: Let_def)
      next
        case (Rejects e)
        then show ?thesis using False True b by (simp add: state_of_def Let_def)
      next
        case Never
        then show ?thesis using False True b by (simp add: state_of_def Let_def)
      qed
    qed
  qed
qed



lemma run_all_rejected_first:
  assumes "tracks s \<noteq> []" and "i < length (promises (enqueue_tracks thr s))"
    and "oc (promises (enqueue_tracks thr s) ! i) = Rejects e"
  shows "run_all thr oc (i # rest) s = Thrown e (enqueue_tracks thr s)"
  using assms by (simp add: Let_def)

lemma tracks_enqueue_tracks_Nil: "tracks (enqueue_tracks thr s) \<noteq> [] \<Longrightarrow> tracks s \<noteq> []"
  by (auto simp add: enqueue_tracks_Nil)

lemma run_all_replaces:
  assumes le: "length (promises s) \<le> thr"
    and pending: "tracks (enqueue_tracks thr s) = t # ts"
    and valid: "i < length (promises (enqueue_tracks thr s))"
    and ful: "oc (promises (enqueue_tracks thr s) ! i) = Fulfils"
  shows "length (promises (enqueue_tracks thr s)) = thr \<and>
         run_all thr oc [i] s =
           Unsettled ((enqueue_tracks thr s)
             \<lparr>tracks := ts,
              promises := splice1 i (promises (enqueue_tracks thr s)) @ [t],
              started := started (enqueue_tracks thr s) @ [t]\<rparr>)"
proof -
  define s1 where "s1 = enqueue_tracks thr s"
  define s2 where "s2 = s1\<lparr>promises := splice1 i (promises s1)\<rparr>"
  define s3 where "s3 = s2\<lparr>tracks := ts, promises := promises s2 @ [t], started := started s2 @ [t]\<rparr>"
  have ne: "tracks s \<noteq> []"
  proof (rule tracks_enqueue_tracks_Nil)
    show "tracks (enqueue_tracks thr s) \<noteq> []" using pending by simp
  qed
  have full: "length (promises s1) = thr"
    using promises_enqueue_tracks [OF le] pending_enqueue_tracks [of thr s] pending
    unfolding s1_def by simp
  have v: "i < length (promises s1)" using valid by (simp only: s1_def)
  have l2: "length (promises s2) < thr"
    using full v by (simp add: s2_def length_splice1)
  have t2: "tracks s2 = t # ts" using pending by (simp add: s2_def s1_def)
  have "enqueue_tracks thr s2 = enqueue_tracks thr s3"
    unfolding s3_def using t2 l2 by (rule enqueue_tracks_Cons)
  moreover have "thr \<le> length (promises s3)"
    using full v by (simp add: s3_def s2_def length_splice1)
  then have "enqueue_tracks thr s3 = s3"
    by (rule enqueue_tracks_full)
  ultimately have e: "enqueue_tracks thr s2 = s3" by simp
  have "run_all thr oc [i] s = run_all thr oc [] s2"
    using ne v ful by (simp add: Let_def s2_def s1_def)
  also have "\<dots> = Unsettled (enqueue_tracks thr s2)"
    using t2 by simp
  finally have "run_all thr oc [i] s = Unsettled s3" by (simp only: e)
  moreover have "s3 = (enqueue_tracks thr s)
             \<lparr>tracks := ts,
              promises := splice1 i (promises (enqueue_tracks thr s)) @ [t],
              started := started (enqueue_tracks thr s) @ [t]\<rparr>"
    by (simp add: s3_def s2_def s1_def)
  ultimately show ?thesis using full by (simp only: s1_def) 
qed

lemma threads_range: "1 \<le> threads hc \<and> threads hc \<le> 8"
  by (simp add: threads_def split: option.splits)






lemma run_all_full:
  "length (promises s) \<le> thr \<Longrightarrow> tracks (state_of (run_all thr oc picks s)) \<noteq> [] \<Longrightarrow>
   length (promises (state_of (run_all thr oc picks s))) = thr"
proof (induction picks arbitrary: s)
  case Nil
  show ?case
  proof (cases "tracks s = []")
    case True
    then show ?thesis using Nil by (simp add: state_of_wait_all)
  next
    case False
    then have "tracks (enqueue_tracks thr s) \<noteq> []" using Nil.prems(2) by (simp add: state_of_def)
    from pending_enqueue_tracks [OF this] promises_enqueue_tracks [OF Nil.prems(1)]
    show ?thesis using False by (simp add: state_of_def)
  qed
next
  case (Cons i rest)
  show ?case
  proof (cases "tracks s = []")
    case True
    then show ?thesis using Cons.prems by (simp add: state_of_wait_all)
  next
    case False
    let ?s1 = "enqueue_tracks thr s"
    have b: "length (promises ?s1) \<le> thr"
      using Cons.prems(1) by (rule promises_enqueue_tracks)
    have stay: "length (promises ?s1) = thr" if "tracks ?s1 \<noteq> []"
      using pending_enqueue_tracks [OF that] b by simp
    show ?thesis
    proof (cases "i < length (promises ?s1)")
      case outside: False
      then show ?thesis using False Cons.prems(2) stay by (simp add: state_of_def)
    next
      case True
      show ?thesis
      proof (cases "oc (promises ?s1 ! i)")
        case Fulfils
        have r: "run_all thr oc (i # rest) s =
            run_all thr oc rest (?s1\<lparr>promises := splice1 i (promises ?s1)\<rparr>)"
          using False True Fulfils by (simp add: Let_def)
        have "length (promises (?s1\<lparr>promises := splice1 i (promises ?s1)\<rparr>)) \<le> thr"
          using b True by (simp add: length_splice1)
        from Cons.IH [OF this] Cons.prems(2) show ?thesis unfolding r by simp
      next
        case (Rejects e)
        then show ?thesis using False True Cons.prems(2) stay by (simp add: state_of_def Let_def)
      next
        case Never
        then show ?thesis using False True Cons.prems(2) stay by (simp add: state_of_def Let_def)
      qed
    qed
  qed
qed

lemma run_all_conserves:
  "started (state_of (run_all thr oc picks s)) @ tracks (state_of (run_all thr oc picks s)) =
     started s @ tracks s"
proof (induction picks arbitrary: s)
  case Nil
  show ?case
  proof (cases "tracks s = []")
    case True
    then show ?thesis by (simp add: state_of_wait_all)
  next
    case False
    then show ?thesis using started_enqueue_tracks [of thr s] by (simp add: state_of_def)
  qed
next
  case (Cons i rest)
  show ?case
  proof (cases "tracks s = []")
    case True
    then show ?thesis by (simp add: state_of_wait_all)
  next
    case False
    let ?s1 = "enqueue_tracks thr s"
    note k = started_enqueue_tracks [of thr s]
    show ?thesis
    proof (cases "i < length (promises ?s1)")
      case outside: False
      then show ?thesis using False k by (simp add: state_of_def)
    next
      case True
      show ?thesis
      proof (cases "oc (promises ?s1 ! i)")
        case Fulfils
        have r: "run_all thr oc (i # rest) s =
            run_all thr oc rest (?s1\<lparr>promises := splice1 i (promises ?s1)\<rparr>)"
          using False True Fulfils by (simp add: Let_def)
        show ?thesis unfolding r Cons.IH using k by simp
      next
        case (Rejects e)
        then show ?thesis using False True k by (simp add: state_of_def Let_def)
      next
        case Never
        then show ?thesis using False True k by (simp add: state_of_def Let_def)
      qed
    qed
  qed
qed

text \<open>
  C3, as amended. At every point of every run the scheduler holds at most
  \<open>min(hardwareConcurrency || 1, 8)\<close> loaders, a number between 1 and 8 that equals
  \<open>min(k, 8)\<close> when the browser reports \<open>k > 0\<close> cores; while tracks are still queued it
  holds exactly that many, and the tracks are started in the order of the queue. While
  tracks are queued, a loader that fulfils is removed and exactly one track, the head of
  the queue, is started in its place; a loader that rejects is not replaced: the run ends
  with its error, the loader is still in the list and the queue is as it was. The states
  of the run at its waiting points are the final states for the prefixes of \<open>picks\<close>.
\<close>

theorem in_flight_bound:
  "length (promises (state_of (loadData hc oc picks n))) \<le> threads hc \<and>
   (tracks (state_of (loadData hc oc picks n)) \<noteq> [] \<longrightarrow>
      length (promises (state_of (loadData hc oc picks n))) = threads hc) \<and>
   started (state_of (loadData hc oc picks n)) @ tracks (state_of (loadData hc oc picks n)) =
     [1 ..< Suc n] \<and>
   1 \<le> threads hc \<and> threads hc \<le> 8 \<and>
   (\<forall>k. 0 < k \<longrightarrow> threads (Some k) = min k 8) \<and>
   (\<forall>thr s i t ts.
      length (promises s) \<le> thr \<and> tracks (enqueue_tracks thr s) = t # ts \<and>
      i < length (promises (enqueue_tracks thr s)) \<and>
      oc (promises (enqueue_tracks thr s) ! i) = Fulfils \<longrightarrow>
      length (promises (enqueue_tracks thr s)) = thr \<and>
      run_all thr oc [i] s =
        Unsettled ((enqueue_tracks thr s)
          \<lparr>tracks := ts,
           promises := splice1 i (promises (enqueue_tracks thr s)) @ [t],
           started := started (enqueue_tracks thr s) @ [t]\<rparr>)) \<and>
   (\<forall>thr s i e rest.
      tracks s \<noteq> [] \<and> i < length (promises (enqueue_tracks thr s)) \<and>
      oc (promises (enqueue_tracks thr s) ! i) = Rejects e \<longrightarrow>
      run_all thr oc (i # rest) s = Thrown e (enqueue_tracks thr s))"
proof -
  have a: "length (promises (state_of (loadData hc oc picks n))) \<le> threads hc"
    unfolding loadData_def by (rule run_all_bound) simp
  have a2: "tracks (state_of (loadData hc oc picks n)) \<noteq> [] \<longrightarrow>
      length (promises (state_of (loadData hc oc picks n))) = threads hc"
    unfolding loadData_def by (intro impI run_all_full) simp_all
  have a3: "started (state_of (loadData hc oc picks n)) @
      tracks (state_of (loadData hc oc picks n)) = [1 ..< Suc n]"
    unfolding loadData_def run_all_conserves by simp
  have b: "\<forall>k. 0 < k \<longrightarrow> threads (Some k) = min k 8"
    by (simp add: threads_def)
  have c: "\<forall>thr s i t ts.
      length (promises s) \<le> thr \<and> tracks (enqueue_tracks thr s) = t # ts \<and>
      i < length (promises (enqueue_tracks thr s)) \<and>
      oc (promises (enqueue_tracks thr s) ! i) = Fulfils \<longrightarrow>
      length (promises (enqueue_tracks thr s)) = thr \<and>
      run_all thr oc [i] s =
        Unsettled ((enqueue_tracks thr s)
          \<lparr>tracks := ts,
           promises := splice1 i (promises (enqueue_tracks thr s)) @ [t],
           started := started (enqueue_tracks thr s) @ [t]\<rparr>)"
    by (intro allI impI run_all_replaces) simp_all
  have d: "\<forall>thr s i e rest.
      tracks s \<noteq> [] \<and> i < length (promises (enqueue_tracks thr s)) \<and>
      oc (promises (enqueue_tracks thr s) ! i) = Rejects e \<longrightarrow>
      run_all thr oc (i # rest) s = Thrown e (enqueue_tracks thr s)"
    by (intro allI impI run_all_rejected_first) simp_all
  from a a2 a3 b c d threads_range [of hc] show ?thesis by blast
qed

lemma two_of_three:
  "enqueue_tracks 2 \<lparr>tracks = [1, 2, 3], promises = [], started = []\<rparr> =
     \<lparr>tracks = [3], promises = [1, 2], started = [1, 2]\<rparr>"
  by code_simp

theorem in_flight_bound_witness:
  "length (promises (state_of (loadData (Some 2) all_fulfil [1] 3))) \<le> 2 \<and>
   threads (Some 2) = 2 \<and>
   run_all 2 all_fulfil [1] \<lparr>tracks = [1, 2, 3], promises = [], started = []\<rparr> =
     Unsettled \<lparr>tracks = [], promises = [1, 3], started = [1, 2, 3]\<rparr>"
proof -
  note t = in_flight_bound [of "Some 2" all_fulfil "[1]" 3]
  have th: "threads (Some 2) = 2" by (simp add: threads_def)
  from t have a: "length (promises (state_of (loadData (Some 2) all_fulfil [1] 3))) \<le> 2"
    unfolding th by blast
  let ?s = "\<lparr>tracks = [1, 2, 3], promises = [], started = []\<rparr>"
  from t have "\<forall>thr s i t ts.
      length (promises s) \<le> thr \<and> tracks (enqueue_tracks thr s) = t # ts \<and>
      i < length (promises (enqueue_tracks thr s)) \<and>
      all_fulfil (promises (enqueue_tracks thr s) ! i) = Fulfils \<longrightarrow>
      length (promises (enqueue_tracks thr s)) = thr \<and>
      run_all thr all_fulfil [i] s =
        Unsettled ((enqueue_tracks thr s)
          \<lparr>tracks := ts,
           promises := splice1 i (promises (enqueue_tracks thr s)) @ [t],
           started := started (enqueue_tracks thr s) @ [t]\<rparr>)"
    by (elim conjE)
  then have "length (promises ?s) \<le> 2 \<and> tracks (enqueue_tracks 2 ?s) = 3 # [] \<and>
      1 < length (promises (enqueue_tracks 2 ?s)) \<and>
      all_fulfil (promises (enqueue_tracks 2 ?s) ! 1) = Fulfils \<longrightarrow>
      run_all 2 all_fulfil [1] ?s =
        Unsettled ((enqueue_tracks 2 ?s)
          \<lparr>tracks := [],
           promises := splice1 1 (promises (enqueue_tracks 2 ?s)) @ [3],
           started := started (enqueue_tracks 2 ?s) @ [3]\<rparr>)"
    by blast
  then have "run_all 2 all_fulfil [1] ?s =
     Unsettled \<lparr>tracks = [], promises = [1, 3], started = [1, 2, 3]\<rparr>"
    unfolding two_of_three by (simp add: all_fulfil_def splice1_def)
  with a th show ?thesis by blast
qed

text \<open>
  One core and two tracks, the first of which cannot be opened: its loader completes while
  track 2 is queued, and no loader is started for track 2.
\<close>

theorem in_flight_bound_counterexample:
  "first_fails 1 = Rejects (LibavError ''Could not open source file'') \<and>
   loadData (Some 1) first_fails [0] 2 =
     Thrown (LibavError ''Could not open source file'')
       \<lparr>tracks = [2], promises = [1], started = [1]\<rparr>"
  by code_simp

section \<open>Rounding to a number\<close>








lemma exponent_zero: "exponent 0 = 0"
  by (simp add: exponent_def bits.simps [of 0])







lemma round_even_zero [simp]: "round_even 0 = 0"
  by (simp add: round_even_def)

lemma round_pos_zero [simp]: "round_pos 0 = 0"
  by (simp add: round_pos_def)










lemma round64_zero [simp]: "round64 0 = Finite 0"
  by (simp add: round64_def exponent_zero)









section \<open>The filter block and one turn of the decode loop\<close>

lemma send_along_frame [simp]:
  "length (status (send_along sidx fs l)) = length (status l)"
  "track_sampleRate (send_along sidx fs l) = track_sampleRate l"
  "track_format (send_along sidx fs l) = track_format l"
  "track_channels (send_along sidx fs l) = track_channels l"
  "filter_calls (send_along sidx fs l) = filter_calls l"
  "buffersrc_ctx (send_along sidx fs l) = buffersrc_ctx l"
  "ch (send_along sidx fs l) = ch l"
  by (induction fs arbitrary: l; simp add: set_duration_def)+


lemma set_duration_frame [simp]:
  "length (status (set_duration sidx d l)) = length (status l)"
  "track_sampleRate (set_duration sidx d l) = track_sampleRate l"
  "track_format (set_duration sidx d l) = track_format l"
  "track_channels (set_duration sidx d l) = track_channels l"
  "filter_calls (set_duration sidx d l) = filter_calls l"
  "buffersrc_ctx (set_duration sidx d l) = buffersrc_ctx l"
  "ch (set_duration sidx d l) = ch l"
  by (simp_all add: set_duration_def)


lemma start_loading_frame [simp]:
  "length (status (start_loading sidx l)) = length (status l)"
  "track_sampleRate (start_loading sidx l) = track_sampleRate l"
  "track_format (start_loading sidx l) = track_format l"
  "track_channels (start_loading sidx l) = track_channels l"
  "filter_calls (start_loading sidx l) = filter_calls l"
  "buffersrc_ctx (start_loading sidx l) = buffersrc_ctx l"
  "ch (start_loading sidx l) = ch l"
  by (simp_all add: start_loading_def)

lemma finish_loading_frame [simp]:
  "length (status (finish_loading sidx eof l)) = length (status l)"
  "track_sampleRate (finish_loading sidx eof l) = track_sampleRate l"
  "track_format (finish_loading sidx eof l) = track_format l"
  "track_channels (finish_loading sidx eof l) = track_channels l"
  "filter_calls (finish_loading sidx eof l) = filter_calls l"
  "buffersrc_ctx (finish_loading sidx eof l) = buffersrc_ctx l"
  "ch (finish_loading sidx eof l) = ch l"
  by (simp_all add: finish_loading_def)







lemma pull_turn_read_more:
  assumes "rs_packets r = None" and "\<not> rs_eof r"
  shows "pull_turn fromPlanar sidx r l =
     (case inRdr_read (ch l) of
        (Blocked, c) \<Rightarrow> Suspended (l\<lparr>ch := c\<rparr>)
      | (Failed e, c) \<Rightarrow> Threw e (l\<lparr>ch := c\<rparr>)
      | (Done, c) \<Rightarrow> Continue (l\<lparr>ch := c, dev := dev l @ [None]\<rparr>)
      | (Value v, c) \<Rightarrow> Continue (l\<lparr>ch := c, dev := dev l @ [Some v]\<rparr>))"
  using assms by (simp add: pull_turn_def)

lemma pull_turn_decode_error:
  assumes "\<not> (rs_packets r = None \<and> \<not> rs_eof r)" and "rs_frames r = Inl e"
  shows "pull_turn fromPlanar sidx r l = Threw e l"
proof -
  have c: "(rs_packets r = None \<and> \<not> rs_eof r) = False" using assms(1) by blast
  show ?thesis using assms(2) by (simp add: pull_turn_def Let_def c)
qed

lemma pull_turn_decode:
  assumes "\<not> (rs_packets r = None \<and> \<not> rs_eof r)" and "rs_frames r = Inr frames"
    and "prepare_turn fromPlanar frames (rs_filter_init r) l = Inr l1"
  shows "pull_turn fromPlanar sidx r l =
     (case (if 0 \<le> buffersrc_ctx l1 then filter_block sidx (rs_eof r) (rs_fframes r) l1
            else Inr (False, l1)) of
        Inl el \<Rightarrow> Threw (fst el) (snd el)
      | Inr bl \<Rightarrow>
          if fst bl then Break (snd bl)
          else if rs_eof r then Break ((snd bl)\<lparr>trackStream_closed := True\<rparr>)
          else Continue (snd bl))"
proof -
  have c: "(rs_packets r = None \<and> \<not> rs_eof r) = False" using assms(1) by blast
  show ?thesis using assms(2,3) by (simp add: pull_turn_def Let_def c)
qed

lemma pull_turn_with_filter:
  assumes "\<not> (rs_packets r = None \<and> \<not> rs_eof r)" and "rs_frames r = Inr frames"
    and "0 \<le> buffersrc_ctx l"
  shows "pull_turn fromPlanar sidx r l =
     (case filter_block sidx (rs_eof r) (rs_fframes r) l of
        Inl el \<Rightarrow> Threw (fst el) (snd el)
      | Inr bl \<Rightarrow>
          if fst bl then Break (snd bl)
          else if rs_eof r then Break ((snd bl)\<lparr>trackStream_closed := True\<rparr>)
          else Continue (snd bl))"
proof -
  have "prepare_turn fromPlanar frames (rs_filter_init r) l = Inr l"
    using assms(3) by (cases frames) (simp_all add: prepare_turn_def)
  from pull_turn_decode [OF assms(1,2) this] assms(3) show ?thesis by simp
qed



section \<open>Format parameters and the conversion stage\<close>

lemma prepare_filter_state:
  "fmt_params (after (prepare_filter fromPlanar f0 init l)) =
     (sample_rate f0, fromPlanar (format f0), channels f0) \<and>
   filter_calls (after (prepare_filter fromPlanar f0 init l)) =
     filter_calls l @
       [(\<lparr>io_sample_rate = sample_rate f0, io_sample_fmt = format f0,
          io_channel_layout = (if channels f0 = 1 then 4 else shl1 (channels f0) - 1)\<rparr>,
         \<lparr>io_sample_rate = sample_rate f0, io_sample_fmt = fromPlanar (format f0),
          io_channel_layout = (if channels f0 = 1 then 4 else shl1 (channels f0) - 1)\<rparr>)] \<and>
   buffersrc_ctx (after (prepare_filter fromPlanar f0 init l)) =
     (case init of Inl e \<Rightarrow> buffersrc_ctx l | Inr h \<Rightarrow> int (fst (snd h)))"
  by (cases init) (simp_all add: prepare_filter_def after_def fmt_params_def Let_def)

lemma conversion_send_along [simp]: "conversion (send_along sidx fs l) = conversion l"
  by (simp add: conversion_def fmt_params_def)

lemma conversion_set_duration [simp]: "conversion (set_duration sidx d l) = conversion l"
  by (simp add: conversion_def fmt_params_def)

lemma conversion_start_loading [simp]: "conversion (start_loading sidx l) = conversion l"
  by (simp add: start_loading_def)

lemma conversion_finish_loading [simp]: "conversion (finish_loading sidx eof l) = conversion l"
  by (simp add: finish_loading_def)

lemma filter_block_keeps:
  "filter_block sidx eof answer l = Inl (e, l') \<Longrightarrow> l' = l"
  "filter_block sidx eof answer l = Inr (b, l') \<Longrightarrow> conversion l' = conversion l"
  by (auto simp add: filter_block_def Let_def split: sum.splits if_splits)

lemma conversion_after_read_more:
  "conversion (flow_state
     (case inRdr_read (ch l) of
        (Blocked, c) \<Rightarrow> Suspended (l\<lparr>ch := c\<rparr>)
      | (Failed e, c) \<Rightarrow> Threw e (l\<lparr>ch := c\<rparr>)
      | (Done, c) \<Rightarrow> Continue (l\<lparr>ch := c, dev := dev l @ [None]\<rparr>)
      | (Value v, c) \<Rightarrow> Continue (l\<lparr>ch := c, dev := dev l @ [Some v]\<rparr>))) = conversion l"
  by (cases "inRdr_read (ch l)"; cases "fst (inRdr_read (ch l))")
    (simp_all add: flow_state_def conversion_def fmt_params_def)

lemma conversion_closed [simp]: "conversion (l\<lparr>trackStream_closed := b\<rparr>) = conversion l"
  by (simp add: conversion_def fmt_params_def)

lemma conversion_after_filter_flow:
  "conversion (flow_state
     (case filter_block sidx eof answer l of
        Inl el \<Rightarrow> Threw (fst el) (snd el)
      | Inr bl \<Rightarrow>
          if fst bl then Break (snd bl)
          else if eof then Break ((snd bl)\<lparr>trackStream_closed := True\<rparr>)
          else Continue (snd bl))) = conversion l"
proof (cases "filter_block sidx eof answer l")
  case (Inl el)
  then have "snd el = l" using filter_block_keeps(1) [of sidx eof answer l "fst el" "snd el"] by simp
  then show ?thesis using Inl by (simp add: flow_state_def)
next
  case (Inr bl)
  then have "conversion (snd bl) = conversion l"
    using filter_block_keeps(2) [of sidx eof answer l "fst bl" "snd bl"] by simp
  then show ?thesis using Inr by (simp add: flow_state_def)
qed

lemma pull_turn_keeps:
  assumes "0 \<le> buffersrc_ctx l"
  shows "conversion (flow_state (pull_turn fromPlanar sidx r l)) = conversion l"
proof (cases "rs_packets r = None \<and> \<not> rs_eof r")
  case True
  then show ?thesis by (simp add: pull_turn_read_more conversion_after_read_more)
next
  case False
  show ?thesis
  proof (cases "rs_frames r")
    case (Inl e)
    have "pull_turn fromPlanar sidx r l = Threw e l"
      using False Inl by (rule pull_turn_decode_error)
    then show ?thesis by (simp add: flow_state_def)
  next
    case (Inr frames)
    show ?thesis
      by (simp only: pull_turn_with_filter [OF False Inr assms] conversion_after_filter_flow)
  qed
qed

lemma buffersrc_of_conversion: "conversion l' = conversion l \<Longrightarrow> buffersrc_ctx l' = buffersrc_ctx l"
  by (simp add: conversion_def)

lemma track_append_keeps:
  "0 \<le> buffersrc_ctx l \<Longrightarrow>
   conversion (outcome_state (track_append fromPlanar sidx rs l)) = conversion l"
proof (induction rs arbitrary: l)
  case Nil
  then show ?case by (simp add: outcome_state_def)
next
  case (Cons r rs)
  note keep = pull_turn_keeps [OF Cons.prems, of fromPlanar sidx r]
  show ?case
  proof (cases "pull_turn fromPlanar sidx r l")
    case (Continue l')
    then have c: "conversion l' = conversion l" using keep by (simp add: flow_state_def)
    then have "0 \<le> buffersrc_ctx l'" using Cons.prems by (simp add: conversion_def)
    from Cons.IH [OF this] show ?thesis using Continue c by simp
  next
    case (Break l')
    then have c: "conversion l' = conversion l" using keep by (simp add: flow_state_def)
    then have "0 \<le> buffersrc_ctx l'" using Cons.prems by (simp add: conversion_def)
    from Cons.IH [OF this] show ?thesis using Break c by (simp add: outcome_state_def)
  next
    case (Threw e l')
    then show ?thesis using keep by (simp add: flow_state_def outcome_state_def)
  next
    case (Suspended l')
    then show ?thesis using keep by (simp add: flow_state_def outcome_state_def)
  qed
qed

lemma pull_turn_no_frames:
  assumes "\<not> (rs_packets r = None \<and> \<not> rs_eof r)" and "rs_frames r = Inr []"
    and "buffersrc_ctx l < 0"
  shows "pull_turn fromPlanar sidx r l =
           (if rs_eof r then Break (l\<lparr>trackStream_closed := True\<rparr>) else Continue l)"
proof -
  have c: "(rs_packets r = None \<and> \<not> rs_eof r) = False" using assms(1) by blast
  have n: "\<not> 0 \<le> buffersrc_ctx l" using assms(3) by simp
  show ?thesis using assms(2) n by (simp add: pull_turn_def prepare_turn_def Let_def c)
qed

lemma pull_turn_first_frames:
  assumes "\<not> (rs_packets r = None \<and> \<not> rs_eof r)" and "rs_frames r = Inr (f0 # fs)"
    and "buffersrc_ctx l < 0"
  shows "pull_turn fromPlanar sidx r l =
     (case prepare_filter fromPlanar f0 (rs_filter_init r) l of
        Inl el \<Rightarrow> Threw (fst el) (snd el)
      | Inr l1 \<Rightarrow>
          (case (if buffersrc_ctx l1 \<ge> 0 then filter_block sidx (rs_eof r) (rs_fframes r) l1
                 else Inr (False, l1)) of
             Inl el \<Rightarrow> Threw (fst el) (snd el)
           | Inr bl \<Rightarrow>
               if fst bl then Break (snd bl)
               else if rs_eof r then Break ((snd bl)\<lparr>trackStream_closed := True\<rparr>)
               else Continue (snd bl)))"
proof -
  have c: "(rs_packets r = None \<and> \<not> rs_eof r) = False" using assms(1) by blast
  show ?thesis using assms(2,3) by (simp add: pull_turn_def prepare_turn_def Let_def c)
qed

lemma first_decoded_take:
  "first_decoded (take k rs) = Some f0 \<Longrightarrow> first_decoded rs = Some f0"
proof (induction rs arbitrary: k)
  case Nil
  then show ?case by simp
next
  case (Cons r rs)
  show ?case
  proof (cases k)
    case 0
    then show ?thesis using Cons.prems by simp
  next
    case (Suc j)
    then show ?thesis using Cons.prems Cons.IH [of j]
      by (auto split: if_splits sum.splits list.splits)
  qed
qed

text \<open>The turn that sees the first decoded frame, followed by the rest of the run.\<close>

lemma first_frames_then_rest:
  assumes neg: "buffersrc_ctx l < 0" and empty: "filter_calls l = []"
    and dec: "\<not> (rs_packets r = None \<and> \<not> rs_eof r)" and fr: "rs_frames r = Inr (f0 # fs)"
  shows
    "fmt_params (outcome_state (track_append fromPlanar sidx (r # rs) l)) =
       (sample_rate f0, fromPlanar (format f0), channels f0) \<and>
     filter_calls (outcome_state (track_append fromPlanar sidx (r # rs) l)) =
       [(\<lparr>io_sample_rate = sample_rate f0, io_sample_fmt = format f0,
          io_channel_layout = (if channels f0 = 1 then 4 else shl1 (channels f0) - 1)\<rparr>,
         \<lparr>io_sample_rate = sample_rate f0, io_sample_fmt = fromPlanar (format f0),
          io_channel_layout = (if channels f0 = 1 then 4 else shl1 (channels f0) - 1)\<rparr>)]"
proof -
  let ?layout = "if channels f0 = 1 then 4 else shl1 (channels f0) - 1"
  let ?calls = "[(\<lparr>io_sample_rate = sample_rate f0, io_sample_fmt = format f0,
          io_channel_layout = ?layout\<rparr>,
         \<lparr>io_sample_rate = sample_rate f0, io_sample_fmt = fromPlanar (format f0),
          io_channel_layout = ?layout\<rparr>)]"
  let ?p = "prepare_filter fromPlanar f0 (rs_filter_init r) l"
  note ps = prepare_filter_state [of fromPlanar f0 "rs_filter_init r" l]
  note pt = pull_turn_first_frames [OF dec fr neg, of fromPlanar sidx]
  have goal: "fmt_params l' = (sample_rate f0, fromPlanar (format f0), channels f0) \<and>
      filter_calls l' = ?calls"
    if "conversion l' = conversion (after ?p)" for l'
    using that ps empty by (simp add: conversion_def)
  have "conversion (outcome_state (track_append fromPlanar sidx (r # rs) l)) = conversion (after ?p)"
  proof (cases ?p)
    case (Inl el)
    then show ?thesis by (simp add: pt after_def outcome_state_def)
  next
    case (Inr l1)
    then obtain h where h: "rs_filter_init r = Inr h"
      by (cases "rs_filter_init r") (simp_all add: prepare_filter_def Let_def)
    have l1: "after ?p = l1" using Inr by (simp add: after_def)
    have pos: "0 \<le> buffersrc_ctx l1"
      using ps h l1 by simp
    let ?flow = "case filter_block sidx (rs_eof r) (rs_fframes r) l1 of
             Inl el \<Rightarrow> Threw (fst el) (snd el)
           | Inr bl \<Rightarrow>
               if fst bl then Break (snd bl)
               else if rs_eof r then Break ((snd bl)\<lparr>trackStream_closed := True\<rparr>)
               else Continue (snd bl)"
    have turn: "pull_turn fromPlanar sidx r l = ?flow"
      using Inr pos by (simp add: pt)
    have keep: "conversion (flow_state ?flow) = conversion l1"
      by (rule conversion_after_filter_flow)
    show ?thesis
    proof (cases ?flow)
      case (Continue l')
      then have c: "conversion l' = conversion l1" using keep by (simp add: flow_state_def)
      then have "0 \<le> buffersrc_ctx l'" using pos by (simp add: conversion_def)
      from track_append_keeps [OF this, of fromPlanar sidx rs] show ?thesis
        using Continue c turn l1 by simp
    next
      case (Break l')
      then have c: "conversion l' = conversion l1" using keep by (simp add: flow_state_def)
      then have "0 \<le> buffersrc_ctx l'" using pos by (simp add: conversion_def)
      from track_append_keeps [OF this, of fromPlanar sidx rs] show ?thesis
        using Break c turn l1 by (simp add: outcome_state_def)
    next
      case (Threw e l')
      then show ?thesis using keep turn l1 by (simp add: flow_state_def outcome_state_def)
    next
      case (Suspended l')
      then show ?thesis using keep turn l1 by (simp add: flow_state_def outcome_state_def)
    qed
  qed
  from goal [OF this] show ?thesis by blast
qed

lemma turns_Cons_pos: "0 < turns fromPlanar sidx (r # rs) l"
  by (cases "pull_turn fromPlanar sidx r l") simp_all

lemma format_run:
  assumes "buffersrc_ctx l < 0" and "filter_calls l = []"
  shows "(case first_decoded (take (turns fromPlanar sidx rs l) rs) of
            None \<Rightarrow>
              conversion (outcome_state (track_append fromPlanar sidx rs l)) = conversion l
          | Some f0 \<Rightarrow>
              fmt_params (outcome_state (track_append fromPlanar sidx rs l)) =
                (sample_rate f0, fromPlanar (format f0), channels f0) \<and>
              filter_calls (outcome_state (track_append fromPlanar sidx rs l)) =
                [(\<lparr>io_sample_rate = sample_rate f0, io_sample_fmt = format f0,
                   io_channel_layout = (if channels f0 = 1 then 4 else shl1 (channels f0) - 1)\<rparr>,
                  \<lparr>io_sample_rate = sample_rate f0, io_sample_fmt = fromPlanar (format f0),
                   io_channel_layout = (if channels f0 = 1 then 4 else shl1 (channels f0) - 1)\<rparr>)])"
  using assms
proof (induction rs arbitrary: l)
  case Nil
  then show ?case by (simp add: outcome_state_def)
next
  case (Cons r rs)
  have cont: ?case
    if same: "conversion l' = conversion l"
      and go: "pull_turn fromPlanar sidx r l = Continue l' \<or>
               (pull_turn fromPlanar sidx r l = Break l' \<and> \<not> trackStream_closed l')"
      and fd: "\<And>rs'. first_decoded (r # rs') = first_decoded rs'" for l'
  proof -
    have run: "track_append fromPlanar sidx (r # rs) l = track_append fromPlanar sidx rs l'"
      using go by auto
    have tn: "turns fromPlanar sidx (r # rs) l = Suc (turns fromPlanar sidx rs l')"
      using go by auto
    have "buffersrc_ctx l' < 0" and "filter_calls l' = []"
      using same Cons.prems by (simp_all add: conversion_def)
    from Cons.IH [OF this] show ?thesis
      unfolding run tn take_Suc_Cons fd same .
  qed
  have stop: ?case
    if "conversion (outcome_state (track_append fromPlanar sidx (r # rs) l)) = conversion l"
      and "turns fromPlanar sidx (r # rs) l = 1" and "first_decoded [r] = None"
    using that by simp
  show ?case
  proof (cases "rs_packets r = None \<and> \<not> rs_eof r")
    case True
    then have fd: "\<And>rs'. first_decoded (r # rs') = first_decoded rs'" by simp
    have keep: "conversion (flow_state (pull_turn fromPlanar sidx r l)) = conversion l"
      using True by (simp add: pull_turn_read_more conversion_after_read_more)
    show ?thesis
    proof (cases "pull_turn fromPlanar sidx r l")
      case (Continue l')
      then show ?thesis using keep fd by (intro cont [of l']) (simp_all add: flow_state_def)
    next
      case (Break l')
      show ?thesis
      proof (cases "trackStream_closed l'")
        case True
        then show ?thesis using Break keep fd
          by (intro stop) (simp_all add: flow_state_def outcome_state_def)
      next
        case False
        then show ?thesis using Break keep fd
          by (intro cont [of l']) (simp_all add: flow_state_def)
      qed
    next
      case (Threw e l')
      then show ?thesis using keep fd
        by (intro stop) (simp_all add: flow_state_def outcome_state_def)
    next
      case (Suspended l')
      then show ?thesis using keep fd
        by (intro stop) (simp_all add: flow_state_def outcome_state_def)
    qed
  next
    case False
    show ?thesis
    proof (cases "rs_frames r")
      case (Inl e)
      have "pull_turn fromPlanar sidx r l = Threw e l"
        using False Inl by (rule pull_turn_decode_error)
      then show ?thesis using False Inl by (intro stop) (auto simp add: outcome_state_def)
    next
      case (Inr frames)
      show ?thesis
      proof (cases frames)
        case Nil
        have fd: "\<And>rs'. first_decoded (r # rs') = first_decoded rs'"
          using False Inr Nil by auto
        have turn: "pull_turn fromPlanar sidx r l =
            (if rs_eof r then Break (l\<lparr>trackStream_closed := True\<rparr>) else Continue l)"
          using False Inr Nil Cons.prems(1) by (intro pull_turn_no_frames) simp_all
        show ?thesis
        proof (cases "rs_eof r")
          case True
          then show ?thesis using turn fd
            by (intro stop) (simp_all add: outcome_state_def)
        next
          case notyet: False
          then show ?thesis using turn fd by (intro cont [of l]) simp_all
        qed
      next
        case (Cons f0 fs)
        have fr: "rs_frames r = Inr (f0 # fs)" using Inr Cons by simp
        obtain j where j: "turns fromPlanar sidx (r # rs) l = Suc j"
          using turns_Cons_pos [of fromPlanar sidx r rs l]
          by (cases "turns fromPlanar sidx (r # rs) l") simp_all
        have fd: "first_decoded (take (turns fromPlanar sidx (r # rs) l) (r # rs)) = Some f0"
          unfolding j take_Suc_Cons using False fr by auto
        from first_frames_then_rest [OF Cons.prems(1,2) False fr, of fromPlanar sidx rs]
        show ?thesis unfolding fd by simp
      qed
    qed
  qed
qed

text \<open>
  C9. Take any run of the decode loop of a track that starts with no filter: the run goes
  through the first \<open>turns fromPlanar sidx rs l\<close> answers of libav.js. If none of them is a
  non-empty decode result, the format fields of the track are untouched and no conversion
  stage was asked for. Otherwise let \<open>f0\<close> be the first frame of the first non-empty decode
  result: sample rate and channel count of the track are those of \<open>f0\<close>, its format is
  \<open>fromPlanar\<close> of the format of \<open>f0\<close>, and \<open>ff_init_filter_graph\<close> was called exactly once,
  with the same sample rate and the same channel layout on both sides, the format of \<open>f0\<close>
  as source and its non-planar version as destination. The first decoded frame of a prefix
  of the answers is that of the whole run, and a run that starts with a filter changes
  neither the format fields nor the calls: once set, the parameters are never changed.
\<close>

theorem format_parameters_fixed_once:
  assumes "buffersrc_ctx l < 0" and "filter_calls l = []"
  shows
    "(case first_decoded (take (turns fromPlanar sidx rs l) rs) of
        None \<Rightarrow>
          fmt_params (outcome_state (track_append fromPlanar sidx rs l)) = fmt_params l \<and>
          filter_calls (outcome_state (track_append fromPlanar sidx rs l)) = []
      | Some f0 \<Rightarrow>
          fmt_params (outcome_state (track_append fromPlanar sidx rs l)) =
            (sample_rate f0, fromPlanar (format f0), channels f0) \<and>
          filter_calls (outcome_state (track_append fromPlanar sidx rs l)) =
            [(\<lparr>io_sample_rate = sample_rate f0, io_sample_fmt = format f0,
               io_channel_layout = (if channels f0 = 1 then 4 else shl1 (channels f0) - 1)\<rparr>,
              \<lparr>io_sample_rate = sample_rate f0, io_sample_fmt = fromPlanar (format f0),
               io_channel_layout = (if channels f0 = 1 then 4 else shl1 (channels f0) - 1)\<rparr>)]) \<and>
     (\<forall>k f0. first_decoded (take k rs) = Some f0 \<longrightarrow> first_decoded rs = Some f0) \<and>
     (\<forall>l2 rs2. 0 \<le> buffersrc_ctx l2 \<longrightarrow>
        fmt_params (outcome_state (track_append fromPlanar sidx rs2 l2)) = fmt_params l2 \<and>
        filter_calls (outcome_state (track_append fromPlanar sidx rs2 l2)) = filter_calls l2)"
proof -
  have a: "(case first_decoded (take (turns fromPlanar sidx rs l) rs) of
        None \<Rightarrow>
          fmt_params (outcome_state (track_append fromPlanar sidx rs l)) = fmt_params l \<and>
          filter_calls (outcome_state (track_append fromPlanar sidx rs l)) = []
      | Some f0 \<Rightarrow>
          fmt_params (outcome_state (track_append fromPlanar sidx rs l)) =
            (sample_rate f0, fromPlanar (format f0), channels f0) \<and>
          filter_calls (outcome_state (track_append fromPlanar sidx rs l)) =
            [(\<lparr>io_sample_rate = sample_rate f0, io_sample_fmt = format f0,
               io_channel_layout = (if channels f0 = 1 then 4 else shl1 (channels f0) - 1)\<rparr>,
              \<lparr>io_sample_rate = sample_rate f0, io_sample_fmt = fromPlanar (format f0),
               io_channel_layout = (if channels f0 = 1 then 4 else shl1 (channels f0) - 1)\<rparr>)])"
    using format_run [OF assms, of fromPlanar sidx rs] assms(2)
    by (cases "first_decoded (take (turns fromPlanar sidx rs l) rs)")
      (simp_all add: conversion_def)
  have b: "\<forall>k f0. first_decoded (take k rs) = Some f0 \<longrightarrow> first_decoded rs = Some f0"
    using first_decoded_take by blast
  have c: "\<forall>l2 rs2. 0 \<le> buffersrc_ctx l2 \<longrightarrow>
        fmt_params (outcome_state (track_append fromPlanar sidx rs2 l2)) = fmt_params l2 \<and>
        filter_calls (outcome_state (track_append fromPlanar sidx rs2 l2)) = filter_calls l2"
    using track_append_keeps [of _ fromPlanar sidx] by (simp add: conversion_def)
  from a b c show ?thesis by blast
qed

lemma one_frame_first:
  "first_decoded (take (turns packed 0 (answers one_frame_av) (new_loader three_tracks))
     (answers one_frame_av)) = Some a_frame"
  by code_simp

theorem format_parameters_fixed_once_witness:
  "buffersrc_ctx (new_loader three_tracks) < 0 \<and>
   filter_calls (new_loader three_tracks) = [] \<and>
   turns packed 0 (answers one_frame_av) (new_loader three_tracks) = 2 \<and>
   fmt_params (outcome_state (track_append packed 0 (answers one_frame_av)
     (new_loader three_tracks))) = (48000, 3, 1) \<and>
   filter_calls (outcome_state (track_append packed 0 (answers one_frame_av)
     (new_loader three_tracks))) =
     [(\<lparr>io_sample_rate = 48000, io_sample_fmt = 8, io_channel_layout = 4\<rparr>,
       \<lparr>io_sample_rate = 48000, io_sample_fmt = 3, io_channel_layout = 4\<rparr>)]"
proof -
  have h1: "buffersrc_ctx (new_loader three_tracks) < 0"
    by (simp add: new_loader_def)
  have h2: "filter_calls (new_loader three_tracks) = []"
    by (simp add: new_loader_def)
  have t: "turns packed 0 (answers one_frame_av) (new_loader three_tracks) = 2"
    by code_simp
  have v: "sample_rate a_frame = 48000" "packed 8 = 3" "channels a_frame = 1"
    "format a_frame = 8"
    by (simp_all add: a_frame_def packed_def)
  from format_parameters_fixed_once [OF h1 h2, of packed 0 "answers one_frame_av"]
  have "fmt_params (outcome_state (track_append packed 0 (answers one_frame_av)
     (new_loader three_tracks))) = (48000, 3, 1) \<and>
   filter_calls (outcome_state (track_append packed 0 (answers one_frame_av)
     (new_loader three_tracks))) =
     [(\<lparr>io_sample_rate = 48000, io_sample_fmt = 8, io_channel_layout = 4\<rparr>,
       \<lparr>io_sample_rate = 48000, io_sample_fmt = 3, io_channel_layout = 4\<rparr>)]"
    unfolding one_frame_first by (simp add: v)
  with h1 h2 t show ?thesis by blast
qed

section \<open>Progress of the decode stage\<close>












text \<open>
  The sums are those of the numbers of the source: three frames of a tenth of a second
  count as 0.30000000000000004 seconds, not as three tenths.
\<close>

lemma seconds_are_rounded:
  "duration_at 0 [tenth_frame, tenth_frame, tenth_frame] tenth_loader 3 =
     DNum (Finite (5404319552844596 / 2 ^ 54)) \<and>
   (5404319552844596 / 2 ^ 54 :: real) \<noteq> 3 / 10 \<and>
   num_quot 1 10 = Finite (3602879701896397 / 2 ^ 55)"
  by code_simp

section \<open>A track without audio\<close>

lemma read_more_untouched:
  "status (flow_state
     (case inRdr_read (ch l) of
        (Blocked, c) \<Rightarrow> Suspended (l\<lparr>ch := c\<rparr>)
      | (Failed e, c) \<Rightarrow> Threw e (l\<lparr>ch := c\<rparr>)
      | (Done, c) \<Rightarrow> Continue (l\<lparr>ch := c, dev := dev l @ [None]\<rparr>)
      | (Value v, c) \<Rightarrow> Continue (l\<lparr>ch := c, dev := dev l @ [Some v]\<rparr>))) = status l \<and>
   appended (flow_state
     (case inRdr_read (ch l) of
        (Blocked, c) \<Rightarrow> Suspended (l\<lparr>ch := c\<rparr>)
      | (Failed e, c) \<Rightarrow> Threw e (l\<lparr>ch := c\<rparr>)
      | (Done, c) \<Rightarrow> Continue (l\<lparr>ch := c, dev := dev l @ [None]\<rparr>)
      | (Value v, c) \<Rightarrow> Continue (l\<lparr>ch := c, dev := dev l @ [Some v]\<rparr>))) = appended l \<and>
   buffersrc_ctx (flow_state
     (case inRdr_read (ch l) of
        (Blocked, c) \<Rightarrow> Suspended (l\<lparr>ch := c\<rparr>)
      | (Failed e, c) \<Rightarrow> Threw e (l\<lparr>ch := c\<rparr>)
      | (Done, c) \<Rightarrow> Continue (l\<lparr>ch := c, dev := dev l @ [None]\<rparr>)
      | (Value v, c) \<Rightarrow> Continue (l\<lparr>ch := c, dev := dev l @ [Some v]\<rparr>))) = buffersrc_ctx l"
  by (cases "inRdr_read (ch l)"; cases "fst (inRdr_read (ch l))")
    (simp_all add: flow_state_def)

lemma pull_turn_untouched:
  assumes "buffersrc_ctx l < 0" and "first_decoded (r # rs) = None"
  shows "status (flow_state (pull_turn fromPlanar sidx r l)) = status l \<and>
         appended (flow_state (pull_turn fromPlanar sidx r l)) = appended l \<and>
         buffersrc_ctx (flow_state (pull_turn fromPlanar sidx r l)) = buffersrc_ctx l \<and>
         first_decoded rs = None"
proof (cases "rs_packets r = None \<and> \<not> rs_eof r")
  case True
  then show ?thesis using assms(2)
    by (simp add: pull_turn_read_more read_more_untouched)
next
  case False
  show ?thesis
  proof (cases "rs_frames r")
    case (Inl e)
    have "pull_turn fromPlanar sidx r l = Threw e l"
      using False Inl by (rule pull_turn_decode_error)
    moreover have "first_decoded rs = None" using assms(2) False Inl by auto
    ultimately show ?thesis by (simp add: flow_state_def)
  next
    case (Inr frames)
    have e: "frames = []" and n: "first_decoded rs = None"
      using assms(2) False Inr by (auto split: list.splits)
    have "pull_turn fromPlanar sidx r l =
            (if rs_eof r then Break (l\<lparr>trackStream_closed := True\<rparr>) else Continue l)"
      using False Inr e assms(1) by (intro pull_turn_no_frames) simp_all
    then show ?thesis using n by (simp add: flow_state_def)
  qed
qed

lemma track_append_untouched:
  "buffersrc_ctx l < 0 \<Longrightarrow> first_decoded rs = None \<Longrightarrow>
   status (outcome_state (track_append fromPlanar sidx rs l)) = status l \<and>
   appended (outcome_state (track_append fromPlanar sidx rs l)) = appended l"
proof (induction rs arbitrary: l)
  case Nil
  then show ?case by (simp add: outcome_state_def)
next
  case (Cons r rs)
  note u = pull_turn_untouched [OF Cons.prems, of fromPlanar sidx]
  show ?case
  proof (cases "pull_turn fromPlanar sidx r l")
    case (Continue l')
    then have "buffersrc_ctx l' < 0" and s: "status l' = status l" "appended l' = appended l"
      using u Cons.prems(1) by (simp_all add: flow_state_def)
    from Cons.IH [OF this(1)] u s show ?thesis using Continue by simp
  next
    case (Break l')
    then have "buffersrc_ctx l' < 0" and s: "status l' = status l" "appended l' = appended l"
      using u Cons.prems(1) by (simp_all add: flow_state_def)
    from Cons.IH [OF this(1)] u s show ?thesis using Break by (simp add: outcome_state_def)
  next
    case (Threw e l')
    then show ?thesis using u by (simp add: flow_state_def outcome_state_def)
  next
    case (Suspended l')
    then show ?thesis using u by (simp add: flow_state_def outcome_state_def)
  qed
qed

lemma decode_track_untouched:
  assumes "buffersrc_ctx l < 0" and "first_decoded (answers av) = None"
  shows "status (outcome_state (decode_track fromPlanar av sidx l)) = status l \<and>
         appended (outcome_state (decode_track fromPlanar av sidx l)) = appended l"
  using track_append_untouched [OF assms, of fromPlanar sidx]
  by (simp add: decode_track_def outcome_state_def split: option.splits)

lemma prime_empty:
  "prime (1024 * 1024) (deliver 1 0 empty_msgs (new_loader three_tracks)) = Break empty_primed"
  by code_simp

lemma empty_primed_state:
  "buffersrc_ctx empty_primed < 0"
  "appended empty_primed = []"
  "map snd (showStatus (status empty_primed)) = [NotLoading, Waiting, Waiting]"
  "dev empty_primed = [None]"
  by code_simp+

text \<open>
  C2, on the code. For the track whose first chunk frame is the terminal one, whatever
  libav.js answers as long as no decode result holds a frame: no frame is appended and the
  entry of the track keeps \<open>duration = false\<close>, so it shows "Not yet loading" and
  never "Finished loading", also when the loader completes without error.
\<close>

theorem empty_track_never_finished:
  assumes "first_decoded (answers av) = None"
  shows "appended (outcome_state
           (loadTrack fromPlanar av 1 0 empty_msgs (new_loader three_tracks))) = [] \<and>
         map snd (showStatus (status (outcome_state
           (loadTrack fromPlanar av 1 0 empty_msgs (new_loader three_tracks)))))
           = [NotLoading, Waiting, Waiting]"
proof -
  have "loadTrack fromPlanar av 1 0 empty_msgs (new_loader three_tracks) =
          decode_track fromPlanar av 0 empty_primed"
    unfolding loadTrack_def prime_empty by simp
  then show ?thesis
    using decode_track_untouched [OF empty_primed_state(1) assms, of fromPlanar 0]
    by (simp add: empty_primed_state)
qed

lemma eof_av_fulfils:
  "settle_of (loadTrack packed eof_av 1 0 empty_msgs (new_loader three_tracks)) = Fulfils"
  by code_simp

theorem empty_track_never_finished_witness:
  "first_decoded (answers eof_av) = None \<and>
   settle_of (loadTrack packed eof_av 1 0 empty_msgs (new_loader three_tracks)) = Fulfils \<and>
   appended (outcome_state
     (loadTrack packed eof_av 1 0 empty_msgs (new_loader three_tracks))) = [] \<and>
   map snd (showStatus (status (outcome_state
     (loadTrack packed eof_av 1 0 empty_msgs (new_loader three_tracks)))))
     = [NotLoading, Waiting, Waiting]"
proof -
  have h: "first_decoded (answers eof_av) = None" by code_simp
  from empty_track_never_finished [OF h, of packed] h eof_av_fulfils show ?thesis by blast
qed


end
